theory Spec2Isabelle
  imports Main "HOL-Library.Extended_Nat"
begin

section \<open>Colours, nodes and the grid\<close>

text \<open>
  The source tags every node with one of ten RGB constants and reads the tag back as the
  node's status (\<open>is_barrier\<close> is \<open>color == BLACK\<close>).  The ten tuples are pairwise different,
  so they are the constructors of a datatype.
\<close>

datatype color = RED | GREEN | BLUE | YELLOW | WHITE | BLACK | PURPLE | ORANGE | GREY | TURQUOISE

text \<open>
  A \<open>Node\<close> object lives in exactly one cell of the grid; a reference to it is the pair of
  its indices in the list of lists.  The fields \<open>x\<close>, \<open>y\<close> and \<open>width\<close> are only read by the
  pygame drawing code and are left out.
\<close>

type_synonym pos = "nat \<times> nat"

record node =
  row :: nat
  col :: nat
  color :: color
  neighbors :: "pos list"
  total_rows :: nat

datatype error = KeyError | IndexError | ZeroDivisionError

definition Node :: "nat \<Rightarrow> nat \<Rightarrow> nat \<Rightarrow> nat \<Rightarrow> node" where
  "Node r c w n = \<lparr>row = r, col = c, color = WHITE, neighbors = [], total_rows = n\<rparr>"

definition get_pos :: "node \<Rightarrow> pos" where
  "get_pos self = (row self, col self)"



definition is_barrier :: "node \<Rightarrow> bool" where
  "is_barrier self = (color self = BLACK)"

definition is_start :: "node \<Rightarrow> bool" where
  "is_start self = (color self = ORANGE)"


definition reset :: "node \<Rightarrow> node" where
  "reset self = self\<lparr>color := WHITE\<rparr>"

definition make_start :: "node \<Rightarrow> node" where
  "make_start self = self\<lparr>color := ORANGE\<rparr>"

definition make_closed :: "node \<Rightarrow> node" where
  "make_closed self = self\<lparr>color := RED\<rparr>"

definition make_open :: "node \<Rightarrow> node" where
  "make_open self = self\<lparr>color := GREEN\<rparr>"

definition make_barrier :: "node \<Rightarrow> node" where
  "make_barrier self = self\<lparr>color := BLACK\<rparr>"

definition make_end :: "node \<Rightarrow> node" where
  "make_end self = self\<lparr>color := TURQUOISE\<rparr>"

definition make_path :: "node \<Rightarrow> node" where
  "make_path self = self\<lparr>color := PURPLE\<rparr>"

text \<open>
  \<open>make_grid\<close>: \<open>gap = width // rows\<close> raises for \<open>rows = 0\<close>; otherwise the two nested
  loops append \<open>Node(i, j, gap, rows)\<close> for \<open>i, j\<close> in \<open>range(rows)\<close>.
\<close>

definition make_grid :: "nat \<Rightarrow> nat \<Rightarrow> error + node list list" where
  "make_grid rows w =
     (if rows = 0 then Inl ZeroDivisionError
      else let gap = w div rows
           in Inr (map (\<lambda>i. map (\<lambda>j. Node i j gap rows) [0..<rows]) [0..<rows]))"

text \<open>Reading and replacing the node a reference points to.\<close>

definition node_at :: "node list list \<Rightarrow> pos \<Rightarrow> node" where
  "node_at gr p = gr ! fst p ! snd p"

definition apply_node :: "(node \<Rightarrow> node) \<Rightarrow> pos \<Rightarrow> node list list \<Rightarrow> node list list" where
  "apply_node m p gr = gr[fst p := (gr ! fst p)[snd p := m (gr ! fst p ! snd p)]]"

text \<open>
  \<open>Node.update_neighbors\<close>: the list is emptied and four tests, in the source's order
  DOWN, UP, RIGHT, LEFT, each append the reference \<open>grid[r][c]\<close> of the cell they looked
  at.  On naturals
  \<open>total_rows - 1\<close> is \<open>0\<close> for \<open>total_rows = 0\<close>, where Python has \<open>-1\<close>: the comparison
  \<open>row < total_rows - 1\<close> is false in both.
\<close>

definition update_neighbors :: "node \<Rightarrow> node list list \<Rightarrow> node" where
  "update_neighbors self gr =
     self\<lparr>neighbors :=
       (if row self < total_rows self - 1 \<and> \<not> is_barrier (gr ! (row self + 1) ! col self)
        then [(row self + 1, col self)] else [])
       @ (if row self > 0 \<and> \<not> is_barrier (gr ! (row self - 1) ! col self)
          then [(row self - 1, col self)] else [])
       @ (if col self < total_rows self - 1 \<and> \<not> is_barrier (gr ! row self ! (col self + 1))
          then [(row self, col self + 1)] else [])
       @ (if col self > 0 \<and> \<not> is_barrier (gr ! row self ! (col self - 1))
          then [(row self, col self - 1)] else [])\<rparr>"

text \<open>
  The references of all nodes, in the order of \<open>for row in grid: for node in row\<close>, and the
  adjacency pass of \<open>main\<close> (run on SPACE, right before the search): every node in turn
  recomputes its list against the grid as it stands.
\<close>

definition all_nodes :: "node list list \<Rightarrow> pos list" where
  "all_nodes gr = concat (map (\<lambda>i. map (\<lambda>j. (i, j)) [0..<length (gr ! i)]) [0..<length gr])"

definition derive_adjacency :: "node list list \<Rightarrow> node list list" where
  "derive_adjacency gr = foldl (\<lambda>g p. apply_node (\<lambda>n. update_neighbors n g) p g) gr (all_nodes gr)"

section \<open>Looking a clicked cell up\<close>

text \<open>
  \<open>get_clicked_pos\<close> floors the pixel coordinates by the cell size; \<open>main\<close> then reads
  \<open>grid[row][col]\<close>.  Python's list indexing takes an index \<open>i\<close> with \<open>-len \<le> i < 0\<close> as
  \<open>len + i\<close> and raises \<open>IndexError\<close> outside \<open>[-len, len)\<close>.
\<close>

definition get_clicked_pos :: "int \<times> int \<Rightarrow> int \<Rightarrow> int \<Rightarrow> error + int \<times> int" where
  "get_clicked_pos p rows w =
     (if rows = 0 then Inl ZeroDivisionError
      else let gap = w div rows; y = fst p; x = snd p
           in if gap = 0 then Inl ZeroDivisionError else Inr (y div gap, x div gap))"

definition getitem :: "'a list \<Rightarrow> int \<Rightarrow> error + 'a" where
  "getitem xs i =
     (if i < - int (length xs) \<or> int (length xs) \<le> i then Inl IndexError
      else if i < 0 then Inr (xs ! nat (int (length xs) + i))
      else Inr (xs ! nat i))"

definition grid_lookup :: "'a list list \<Rightarrow> int \<Rightarrow> int \<Rightarrow> error + 'a" where
  "grid_lookup gr r c = (case getitem gr r of Inl e \<Rightarrow> Inl e | Inr xs \<Rightarrow> getitem xs c)"

section \<open>The heuristic\<close>

definition h :: "pos \<Rightarrow> pos \<Rightarrow> nat" where
  "h p1 p2 = (case p1 of (x1, y1) \<Rightarrow> case p2 of (x2, y2) \<Rightarrow>
                nat (\<bar>int x1 - int x2\<bar> + \<bar>int y1 - int y2\<bar>))"

section \<open>The priority queue\<close>

text \<open>
  \<open>queue.PriorityQueue\<close> holds the tuples \<open>(f_score, count, node)\<close>; \<open>get\<close> removes and
  returns the least one, tuples being compared component by component.  The model keeps
  the entries in a list and \<open>pq_get\<close> extracts the entry that is least in
  \<open>(f_score, count)\<close>.  \<open>get\<close> on an empty queue blocks for ever, which is the value \<open>None\<close>.
\<close>

type_synonym entry = "enat \<times> nat \<times> pos"

definition key_less :: "entry \<Rightarrow> entry \<Rightarrow> bool" where
  "key_less a b = (fst a < fst b \<or> (fst a = fst b \<and> fst (snd a) < fst (snd b)))"

fun pq_min :: "entry \<Rightarrow> entry list \<Rightarrow> entry" where
  "pq_min m [] = m"
| "pq_min m (e # es) = pq_min (if key_less e m then e else m) es"

definition pq_put :: "entry list \<Rightarrow> entry \<Rightarrow> entry list" where
  "pq_put q e = q @ [e]"

definition pq_empty :: "entry list \<Rightarrow> bool" where
  "pq_empty q = (q = [])"

definition pq_get :: "entry list \<Rightarrow> (entry \<times> entry list) option" where
  "pq_get q = (case q of [] \<Rightarrow> None | e # es \<Rightarrow> (let m = pq_min e es in Some (m, remove1 m q)))"

section \<open>The search\<close>

text \<open>
  The state of one call of \<open>algorithm\<close>: the grid (whose nodes the search recolours), the
  local variables of the function, and the history of the run.  The history lists, in
  order, every status assignment (the node and the colour it got) and every call of the
  \<open>draw\<close> callback with the grid that the callback renders.
\<close>

datatype event = Mark pos color | Draw "node list list"

record state =
  grid :: "node list list"
  count :: nat
  open_set :: "entry list"
  came_from :: "pos \<rightharpoonup> pos"
  g_score :: "pos \<rightharpoonup> enat"
  f_score :: "pos \<rightharpoonup> enat"
  open_set_hash :: "pos set"
  trace :: "event list"

definition node_call :: "(node \<Rightarrow> node) \<Rightarrow> pos \<Rightarrow> state \<Rightarrow> state" where
  "node_call m p s =
     s\<lparr>grid := apply_node m p (grid s),
       trace := trace s @ [Mark p (color (m (node_at (grid s) p)))]\<rparr>"

definition draw :: "state \<Rightarrow> state" where
  "draw s = s\<lparr>trace := trace s @ [Draw (grid s)]\<rparr>"

text \<open>
  \<open>reconstruct_path\<close>: \<open>while current in came_from\<close> steps to the predecessor, colours it
  and redraws.  A cyclic \<open>came_from\<close> would keep the loop running: the value \<open>None\<close>.
\<close>

partial_function (option) reconstruct_path :: "(pos \<rightharpoonup> pos) \<Rightarrow> pos \<Rightarrow> state \<Rightarrow> state option" where
  "reconstruct_path cf current s =
     (case cf current of
        None \<Rightarrow> Some s
      | Some c \<Rightarrow> reconstruct_path cf c (draw (node_call make_path c s)))"

text \<open>
  The body of \<open>for neighbor in current.neighbors\<close>, and the loop over the list.  A read
  \<open>g_score[n]\<close> of a node that is not a key of the dictionary raises \<open>KeyError\<close>;
  \<open>float("inf") + 1\<close> is \<open>float("inf")\<close>, as \<open>\<infinity> + 1 = \<infinity>\<close> in \<open>enat\<close>.
\<close>

definition for_body :: "pos \<Rightarrow> pos \<Rightarrow> pos \<Rightarrow> state \<Rightarrow> error + state" where
  "for_body endn current neighbor s =
     (case g_score s current of
        None \<Rightarrow> Inl KeyError
      | Some gc \<Rightarrow>
          (let temp_g_score = gc + 1 in
           case g_score s neighbor of
             None \<Rightarrow> Inl KeyError
           | Some gn \<Rightarrow>
               if temp_g_score < gn then
                 (let fs = temp_g_score
                        + enat (h (get_pos (node_at (grid s) neighbor)) (get_pos (node_at (grid s) endn)));
                      s1 = s\<lparr>came_from := (came_from s)(neighbor \<mapsto> current),
                             g_score := (g_score s)(neighbor \<mapsto> temp_g_score),
                             f_score := (f_score s)(neighbor \<mapsto> fs)\<rparr>
                  in if neighbor \<notin> open_set_hash s1 then
                       Inr (node_call make_open neighbor
                              (s1\<lparr>count := count s1 + 1,
                                  open_set := pq_put (open_set s1) (fs, count s1 + 1, neighbor),
                                  open_set_hash := insert neighbor (open_set_hash s1)\<rparr>))
                     else Inr s1)
               else Inr s))"

fun for_neighbors :: "pos \<Rightarrow> pos \<Rightarrow> pos list \<Rightarrow> state \<Rightarrow> error + state" where
  "for_neighbors endn current [] s = Inr s"
| "for_neighbors endn current (neighbor # rest) s =
     (case for_body endn current neighbor s of
        Inl err \<Rightarrow> Inl err
      | Inr s' \<Rightarrow> for_neighbors endn current rest s')"

text \<open>
  One turn of \<open>while not open_set.empty()\<close>.  The pygame event poll at the head of the
  loop belongs to the window and is left out.
\<close>

datatype step_result = Raise error | Return bool state | Continue state

definition loop_body :: "pos \<Rightarrow> pos \<Rightarrow> state \<Rightarrow> step_result option" where
  "loop_body start endn s =
     (case pq_get (open_set s) of
        None \<Rightarrow> None
      | Some (e, q) \<Rightarrow>
          (let current = snd (snd e) in
           if current \<notin> open_set_hash s then Some (Raise KeyError)
           else
             (let s1 = s\<lparr>open_set := q, open_set_hash := open_set_hash s - {current}\<rparr> in
              if current = endn then
                (case reconstruct_path (came_from s1) endn s1 of
                   None \<Rightarrow> None
                 | Some s2 \<Rightarrow> Some (Return True (node_call make_end endn s2)))
              else
                (case for_neighbors endn current (neighbors (node_at (grid s1) current)) s1 of
                   Inl err \<Rightarrow> Some (Raise err)
                 | Inr s2 \<Rightarrow>
                     (let s3 = draw s2 in
                      Some (Continue (if current \<noteq> start
                                      then node_call make_closed current s3 else s3)))))))"

partial_function (option) while_loop :: "pos \<Rightarrow> pos \<Rightarrow> state \<Rightarrow> (error + bool \<times> state) option" where
  "while_loop start endn s =
     (if pq_empty (open_set s) then Some (Inr (False, s))
      else (case loop_body start endn s of
              None \<Rightarrow> None
            | Some (Raise err) \<Rightarrow> Some (Inl err)
            | Some (Return b s') \<Rightarrow> Some (Inr (b, s'))
            | Some (Continue s') \<Rightarrow> while_loop start endn s'))"

definition init_state :: "node list list \<Rightarrow> pos \<Rightarrow> pos \<Rightarrow> state" where
  "init_state gr start endn =
     \<lparr>grid = gr,
      count = 0,
      open_set = pq_put [] (0, 0, start),
      came_from = Map.empty,
      g_score = (map_of (map (\<lambda>p. (p, \<infinity>)) (all_nodes gr)))(start \<mapsto> 0),
      f_score = (map_of (map (\<lambda>p. (p, \<infinity>)) (all_nodes gr)))
                  (start \<mapsto> enat (h (get_pos (node_at gr start)) (get_pos (node_at gr endn)))),
      open_set_hash = {start},
      trace = []\<rparr>"

definition algorithm :: "node list list \<Rightarrow> pos \<Rightarrow> pos \<Rightarrow> (error + bool \<times> state) option" where
  "algorithm gr start endn = while_loop start endn (init_state gr start endn)"

declare reconstruct_path.simps [code]
declare while_loop.simps [code]

section \<open>Grids as \<open>make_grid\<close> builds them\<close>

text \<open>
  \<open>main\<close> only ever recolours the nodes of the grid that \<open>make_grid\<close> returned, so the
  grid the search sees is square and every node still carries its own indices and the
  number of rows.  \<open>adjacent p q\<close>: \<open>q\<close> is one axis-aligned step away from \<open>p\<close>.
\<close>

definition grid_shape :: "nat \<Rightarrow> node list list \<Rightarrow> bool" where
  "grid_shape R gr =
     (length gr = R \<and>
      (\<forall>i<R. length (gr ! i) = R \<and>
         (\<forall>j<R. row (gr ! i ! j) = i \<and> col (gr ! i ! j) = j \<and> total_rows (gr ! i ! j) = R)))"

definition adjacent :: "pos \<Rightarrow> pos \<Rightarrow> bool" where
  "adjacent p q =
     ((fst q = fst p + 1 \<and> snd q = snd p) \<or> (fst q + 1 = fst p \<and> snd q = snd p) \<or>
      (fst q = fst p \<and> snd q = snd p + 1) \<or> (fst q = fst p \<and> snd q + 1 = snd p))"

section \<open>Notions used to state the properties\<close>

text \<open>
  \<open>same_static gr g\<close>: \<open>g\<close> has the shape of \<open>gr\<close> and its nodes agree with those of \<open>gr\<close> in
  everything but the neighbour lists.  \<open>derived gr p\<close> is the list \<open>update_neighbors\<close>
  computes for the node of cell \<open>p\<close> of a square grid.
\<close>


definition same_static :: "node list list \<Rightarrow> node list list \<Rightarrow> bool" where
  "same_static gr g =
     (length g = length gr \<and>
      (\<forall>i<length gr. length (g ! i) = length (gr ! i) \<and>
         (\<forall>j<length (gr ! i). row (g ! i ! j) = row (gr ! i ! j) \<and> col (g ! i ! j) = col (gr ! i ! j)
            \<and> color (g ! i ! j) = color (gr ! i ! j) \<and> total_rows (g ! i ! j) = total_rows (gr ! i ! j))))"

definition derived :: "node list list \<Rightarrow> pos \<Rightarrow> pos list" where
  "derived gr p =
     (if fst p + 1 < length gr \<and> color (gr ! (fst p + 1) ! snd p) \<noteq> BLACK then [(fst p + 1, snd p)] else [])
     @ (if 0 < fst p \<and> color (gr ! (fst p - 1) ! snd p) \<noteq> BLACK then [(fst p - 1, snd p)] else [])
     @ (if snd p + 1 < length gr \<and> color (gr ! fst p ! (snd p + 1)) \<noteq> BLACK then [(fst p, snd p + 1)] else [])
     @ (if 0 < snd p \<and> color (gr ! fst p ! (snd p - 1)) \<noteq> BLACK then [(fst p, snd p - 1)] else [])"


text \<open>The 3 by 3 grid whose middle row is all barriers, start above it and end below.\<close>

definition example_wall :: "node list list" where
  "example_wall =
     apply_node make_end (2, 1) (apply_node make_start (0, 1)
       (apply_node make_barrier (1, 2) (apply_node make_barrier (1, 1)
          (apply_node make_barrier (1, 0) (projr (make_grid 3 500))))))"

text \<open>The states in which the search stands at the head of its \<open>while\<close> loop.\<close>

inductive reachable :: "node list list \<Rightarrow> pos \<Rightarrow> pos \<Rightarrow> state \<Rightarrow> bool"
  for gr :: "node list list" and start :: pos and endn :: pos where
  reach_init: "reachable gr start endn (init_state gr start endn)"
| reach_step: "reachable gr start endn s \<Longrightarrow> \<not> pq_empty (open_set s)
     \<Longrightarrow> loop_body start endn s = Some (Continue s') \<Longrightarrow> reachable gr start endn s'"

definition queue_inv :: "state \<Rightarrow> bool" where
  "queue_inv s =
     (sorted_wrt (<) (map (fst \<circ> snd) (open_set s))
      \<and> (\<forall>e\<in>set (open_set s). fst (snd e) \<le> count s)
      \<and> open_set_hash s = (snd \<circ> snd) ` set (open_set s)
      \<and> distinct (map (snd \<circ> snd) (open_set s)))"

text \<open>What one turn of the inner loop does, field by field.\<close>

definition relaxes :: "state \<Rightarrow> pos \<Rightarrow> pos \<Rightarrow> bool" where
  "relaxes s current neighbor =
     (\<exists>gc gn. g_score s current = Some gc \<and> g_score s neighbor = Some gn \<and> gc + 1 < gn)"

definition new_g :: "state \<Rightarrow> pos \<Rightarrow> enat" where
  "new_g s current = the (g_score s current) + 1"

definition new_f :: "pos \<Rightarrow> state \<Rightarrow> pos \<Rightarrow> pos \<Rightarrow> enat" where
  "new_f endn s current neighbor =
     new_g s current + enat (h (get_pos (node_at (grid s) neighbor)) (get_pos (node_at (grid s) endn)))"

definition pop :: "state \<Rightarrow> entry \<Rightarrow> entry list \<Rightarrow> state" where
  "pop s m q = s\<lparr>open_set := q, open_set_hash := open_set_hash s - {snd (snd m)}\<rparr>"

definition loop_exit :: "pos \<Rightarrow> pos \<Rightarrow> state \<Rightarrow> error + bool \<times> state \<Rightarrow> bool" where
  "loop_exit start endn t r =
     ((pq_empty (open_set t) \<and> r = Inr (False, t))
      \<or> (\<not> pq_empty (open_set t) \<and>
           ((\<exists>e. loop_body start endn t = Some (Raise e) \<and> r = Inl e)
            \<or> (\<exists>b t'. loop_body start endn t = Some (Return b t') \<and> r = Inr (b, t')))))"

text \<open>
  The 2 by 2 grid without barriers, start at \<open>(0, 0)\<close> and end at \<open>(0, 1)\<close>, after the
  adjacency pass; and the state of the search on it after the first turn of the loop.
\<close>

definition example_open :: "node list list" where
  "example_open =
     derive_adjacency (apply_node make_end (0, 1) (apply_node make_start (0, 0) (projr (make_grid 2 500))))"

definition continue_of :: "step_result option \<Rightarrow> state \<Rightarrow> state" where
  "continue_of r d = (case r of Some (Continue s) \<Rightarrow> s | _ \<Rightarrow> d)"

definition example_state :: state where
  "example_state =
     continue_of (loop_body (0, 0) (0, 1) (init_state example_open (0, 0) (0, 1)))
       (init_state example_open (0, 0) (0, 1))"

text \<open>
  \<open>recoloured gr g\<close>: \<open>g\<close> is \<open>gr\<close> with some nodes recoloured.  \<open>score_inv\<close> collects what the
  search keeps true of its dictionaries; \<open>closed_graph\<close> says that the start and all
  neighbours are nodes of the grid.
\<close>

definition recoloured :: "node list list \<Rightarrow> node list list \<Rightarrow> bool" where
  "recoloured gr g =
     (length g = length gr \<and> (\<forall>i. length (g ! i) = length (gr ! i))
      \<and> (\<forall>p. row (node_at g p) = row (node_at gr p) \<and> col (node_at g p) = col (node_at gr p)
             \<and> neighbors (node_at g p) = neighbors (node_at gr p)
             \<and> total_rows (node_at g p) = total_rows (node_at gr p)))"

definition score_inv :: "node list list \<Rightarrow> pos \<Rightarrow> state \<Rightarrow> bool" where
  "score_inv gr start s =
     (g_score s start = Some 0
      \<and> dom (g_score s) = insert start (set (all_nodes gr))
      \<and> (\<forall>n c. came_from s n = Some c \<longrightarrow>
            n \<noteq> start \<and> n \<in> set (neighbors (node_at gr c))
            \<and> (\<exists>a b. g_score s c = Some (enat a) \<and> g_score s n = Some (enat b) \<and> a < b))
      \<and> (\<forall>n a. g_score s n = Some (enat a) \<longrightarrow> n = start \<or> n \<in> dom (came_from s))
      \<and> (\<forall>n\<in>open_set_hash s. \<exists>a. g_score s n = Some (enat a))
      \<and> recoloured gr (grid s))"

definition closed_graph :: "node list list \<Rightarrow> pos \<Rightarrow> bool" where
  "closed_graph gr start =
     (start \<in> set (all_nodes gr)
      \<and> (\<forall>p\<in>set (all_nodes gr). set (neighbors (node_at gr p)) \<subseteq> set (all_nodes gr)))"

text \<open>
  The measure of the search loop: the number of nodes whose score is still infinite, then
  the sum of the finite scores, then the length of the queue.
\<close>

definition fin :: "enat option \<Rightarrow> nat" where
  "fin v = (case v of Some (enat k) \<Rightarrow> k | _ \<Rightarrow> 0)"

definition score_measure :: "(pos \<rightharpoonup> enat) \<Rightarrow> nat \<times> nat" where
  "score_measure g = (card {n \<in> dom g. g n = Some \<infinity>}, \<Sum>n\<in>dom g. fin (g n))"

definition search_measure :: "(state \<times> state) set" where
  "search_measure =
     inv_image ((less_than <*lex*> less_than) <*lex*> less_than)
       (\<lambda>s. (score_measure (g_score s), length (open_set s)))"

text \<open>
  \<open>came_path cf n ps\<close>: following \<open>cf\<close> from \<open>n\<close> visits the nodes \<open>ps\<close>, in this order, and
  stops at the last of them, which has no entry in \<open>cf\<close>.
\<close>

inductive came_path :: "(pos \<rightharpoonup> pos) \<Rightarrow> pos \<Rightarrow> pos list \<Rightarrow> bool"
  for cf :: "pos \<rightharpoonup> pos" where
  came_stop: "cf n = None \<Longrightarrow> came_path cf n []"
| came_next: "cf n = Some c \<Longrightarrow> came_path cf c ps \<Longrightarrow> came_path cf n (c # ps)"

text \<open>
  What a caller sees of a finished run: the value returned, the history and the grid as
  the search left it; and, of a history, the cells marked with a colour and the grids
  the \<open>draw\<close> callback rendered.
\<close>

definition returned :: "(error + bool \<times> state) option \<Rightarrow> bool option" where
  "returned r = (case r of Some (Inr (b, s)) \<Rightarrow> Some b | _ \<Rightarrow> None)"

definition final_trace :: "(error + bool \<times> state) option \<Rightarrow> event list" where
  "final_trace r = (case r of Some (Inr (b, s)) \<Rightarrow> trace s | _ \<Rightarrow> [])"

definition final_grid :: "(error + bool \<times> state) option \<Rightarrow> node list list" where
  "final_grid r = (case r of Some (Inr (b, s)) \<Rightarrow> grid s | _ \<Rightarrow> [])"

fun marked :: "color \<Rightarrow> event list \<Rightarrow> pos list" where
  "marked c [] = []"
| "marked c (Mark p d # es) = (if d = c then p # marked c es else marked c es)"
| "marked c (Draw g # es) = marked c es"

fun drawn :: "event list \<Rightarrow> node list list list" where
  "drawn [] = []"
| "drawn (Mark p d # es) = drawn es"
| "drawn (Draw g # es) = g # drawn es"

text \<open>
  \<open>mark_path ps w\<close> is what \<open>reconstruct_path\<close> does to the state when the chain it
  follows is \<open>ps\<close>.  \<open>colour_ok\<close> and \<open>mark_inv\<close> say what the search loop may have done to
  the colours: nothing to start, \<open>GREEN\<close> or \<open>RED\<close> to other nodes, and never \<open>RED\<close> to end.
\<close>

definition mark_path :: "pos list \<Rightarrow> state \<Rightarrow> state" where
  "mark_path ps w = foldl (\<lambda>w c. draw (node_call make_path c w)) w ps"

definition colour_ok :: "node list list \<Rightarrow> pos \<Rightarrow> pos \<Rightarrow> node list list \<Rightarrow> bool" where
  "colour_ok gr start endn g =
     (color (node_at g start) = color (node_at gr start)
      \<and> (\<forall>p. color (node_at g p) = color (node_at gr p) \<or> color (node_at g p) = GREEN
             \<or> (color (node_at g p) = RED \<and> p \<noteq> endn)))"

definition event_ok :: "node list list \<Rightarrow> pos \<Rightarrow> pos \<Rightarrow> event \<Rightarrow> bool" where
  "event_ok gr start endn e =
     (case e of
        Mark p c \<Rightarrow> (c = GREEN \<and> p \<noteq> start) \<or> (c = RED \<and> p \<noteq> start \<and> p \<noteq> endn)
      | Draw g \<Rightarrow> colour_ok gr start endn g)"

definition mark_inv :: "node list list \<Rightarrow> pos \<Rightarrow> pos \<Rightarrow> state \<Rightarrow> bool" where
  "mark_inv gr start endn s =
     (colour_ok gr start endn (grid s) \<and> (\<forall>e\<in>set (trace s). event_ok gr start endn e))"

definition path_coloured :: "node list list \<Rightarrow> pos list \<Rightarrow> node list list \<Rightarrow> bool" where
  "path_coloured g0 ps g =
     (\<forall>p. color (node_at g p) = color (node_at g0 p) \<or> (color (node_at g p) = PURPLE \<and> p \<in> set ps))"



text \<open>
  \<open>free_step R gr\<close>: one axis-aligned step inside the \<open>R\<close> by \<open>R\<close> grid onto a cell that is
  not a barrier.  \<open>edges gr\<close>: the neighbour lists of \<open>gr\<close> read as a graph.
\<close>

definition free_step :: "nat \<Rightarrow> node list list \<Rightarrow> (pos \<times> pos) set" where
  "free_step R gr =
     {(p, q). fst p < R \<and> snd p < R \<and> fst q < R \<and> snd q < R \<and> adjacent p q
              \<and> \<not> is_barrier (node_at gr q)}"

definition edges :: "node list list \<Rightarrow> (pos \<times> pos) set" where
  "edges gr = {(c, n). n \<in> set (neighbors (node_at gr c))}"

text \<open>
  The grid \<open>example_wall\<close> with the bottom left cell left coloured as a Path node, as a
  search run earlier on the grid may leave it.
\<close>

definition example_stale :: "node list list" where
  "example_stale = apply_node make_path (2, 0) example_wall"








text \<open>
  The sequence of status assignments of a history.  \<open>sim s1 s2\<close>: two states of the search
  agree in everything but the colours of the grid and the grids drawn.  \<open>same_graph\<close>: two
  grids have the same cells, with the same positions and the same neighbour lists.
\<close>

fun marks :: "event list \<Rightarrow> (pos \<times> color) list" where
  "marks [] = []"
| "marks (Mark p c # es) = (p, c) # marks es"
| "marks (Draw g # es) = marks es"

definition sim :: "state \<Rightarrow> state \<Rightarrow> bool" where
  "sim s1 s2 =
     (count s1 = count s2 \<and> open_set s1 = open_set s2 \<and> came_from s1 = came_from s2
      \<and> g_score s1 = g_score s2 \<and> f_score s1 = f_score s2
      \<and> open_set_hash s1 = open_set_hash s2 \<and> marks (trace s1) = marks (trace s2))"

definition same_graph :: "node list list \<Rightarrow> node list list \<Rightarrow> bool" where
  "same_graph gr1 gr2 =
     (all_nodes gr1 = all_nodes gr2
      \<and> (\<forall>p\<in>set (all_nodes gr1). neighbors (node_at gr1 p) = neighbors (node_at gr2 p)
            \<and> get_pos (node_at gr1 p) = get_pos (node_at gr2 p)))"

section \<open>Indexing the grid\<close>

lemma getitem_cases:
  "getitem xs i =
     (if - int (length xs) \<le> i \<and> i < int (length xs)
      then Inr (xs ! nat (i mod int (length xs))) else Inl IndexError)"
proof (cases "i < 0")
  case True
  then show ?thesis
  proof (cases "- int (length xs) \<le> i")
    case True
    have "i mod int (length xs) = int (length xs) + i"
    proof -
      have "(i + int (length xs)) mod int (length xs) = i mod int (length xs)" by simp
      moreover have "(i + int (length xs)) mod int (length xs) = i + int (length xs)"
        using True \<open>i < 0\<close> by (intro mod_pos_pos_trivial) auto
      ultimately show ?thesis by simp
    qed
    with True \<open>i < 0\<close> show ?thesis by (simp add: getitem_def Let_def)
  next
    case False
    with \<open>i < 0\<close> show ?thesis by (simp add: getitem_def Let_def)
  qed
next
  case False
  then show ?thesis by (auto simp: getitem_def Let_def)
qed

lemma getitem_in_range:
  "- int (length xs) \<le> i \<Longrightarrow> i < int (length xs) \<Longrightarrow> nat (i mod int (length xs)) < length xs"
proof -
  assume a: "- int (length xs) \<le> i" "i < int (length xs)"
  then have "0 < int (length xs)" by linarith
  then have "i mod int (length xs) < int (length xs)" "0 \<le> i mod int (length xs)"
    by simp_all
  then show ?thesis by linarith
qed

lemma make_grid_shape: "make_grid R w = Inr gr \<Longrightarrow> grid_shape R gr"
  by (auto simp: make_grid_def grid_shape_def Node_def split: if_splits)

text \<open>
  Claim C9, as stated: a position with a coordinate outside \<open>[0, rows)\<close>, negative ones
  included, is rejected and never yields another cell.  It fails on the code: \<open>main\<close> reads
  \<open>grid[row][col]\<close> with no check of its own, and Python takes the row \<open>-1\<close> of a 3 by 3
  grid as its last row, so the lookup at \<open>(-1, 0)\<close> returns the node of cell \<open>(2, 0)\<close>.
\<close>

theorem grid_lookup_negative_counterexample:
  "grid_lookup (projr (make_grid 3 500)) (- 1) 0 = Inr (Node 2 0 166 3)"
  by (simp add: make_grid_def grid_lookup_def getitem_def upt_rec Node_def)

text \<open>
  Claim C9, amended: on a grid of \<open>R\<close> rows of \<open>R\<close> cells the lookup \<open>grid[r][c]\<close> raises
  \<open>IndexError\<close> exactly when a coordinate is \<open>\<ge> R\<close> or \<open>< -R\<close>; a coordinate in \<open>[-R, 0)\<close> is
  not rejected, it is counted from the end (coordinate \<open>+ R\<close>, which is the coordinate
  modulo \<open>R\<close>).
\<close>

theorem grid_lookup_bounds:
  assumes "length gr = R" and "\<forall>xs\<in>set gr. length xs = R"
  shows "grid_lookup gr r c =
           (if - int R \<le> r \<and> r < int R \<and> - int R \<le> c \<and> c < int R
            then Inr (gr ! nat (r mod int R) ! nat (c mod int R)) else Inl IndexError)"
proof (cases "- int R \<le> r \<and> r < int R")
  case True
  then have "nat (r mod int R) < length gr"
    using assms(1) getitem_in_range [of gr r] by simp
  then have "length (gr ! nat (r mod int R)) = R" using assms(2) by simp
  with True assms(1) show ?thesis by (simp add: grid_lookup_def getitem_cases)
next
  case False
  then have "getitem gr r = Inl IndexError"
    using assms(1) by (auto simp: getitem_cases)
  with False show ?thesis by (auto simp add: grid_lookup_def)
qed

theorem grid_lookup_bounds_witness:
  "length (projr (make_grid 3 500)) = 3
   \<and> list_all (\<lambda>xs. length xs = 3) (projr (make_grid 3 500))
   \<and> grid_lookup (projr (make_grid 3 500)) 3 0 = Inl IndexError
   \<and> grid_lookup (projr (make_grid 3 500)) 0 (- 4) = Inl IndexError
   \<and> grid_lookup (projr (make_grid 3 500)) (- 3) 1 = Inr (projr (make_grid 3 500) ! 0 ! 1)"
proof -
  have l: "length (projr (make_grid 3 500)) = 3"
    by (simp add: make_grid_def)
  have a: "\<forall>xs\<in>set (projr (make_grid 3 500)). length xs = 3"
    by (simp add: make_grid_def)
  show ?thesis
    using l a grid_lookup_bounds [OF l a, of 3 0] grid_lookup_bounds [OF l a, of 0 "- 4"]
      grid_lookup_bounds [OF l a, of "- 3" 1]
    by (simp add: list_all_iff)
qed

section \<open>The adjacency pass\<close>

lemma apply_node_length [simp]: "length (apply_node m p g) = length g"
  by (simp add: apply_node_def)

lemma apply_node_row_length [simp]: "length (apply_node m p g ! i) = length (g ! i)"
proof (cases "fst p < length g")
  case True
  then show ?thesis by (cases "i = fst p") (simp_all add: apply_node_def)
next
  case False
  then show ?thesis by (simp add: apply_node_def list_update_beyond)
qed

lemma apply_node_nth:
  "apply_node m p g ! i ! j =
     (if (i, j) = p \<and> i < length g \<and> j < length (g ! i) then m (g ! i ! j) else g ! i ! j)"
proof (cases p)
  case (Pair a b)
  show ?thesis
  proof (cases "a < length g")
    case al: True
    show ?thesis
    proof (cases "i = a")
      case ia: True
      show ?thesis
      proof (cases "b < length (g ! a)")
        case True
        then show ?thesis using Pair al ia by (cases "j = b") (simp_all add: apply_node_def)
      next
        case False
        then show ?thesis using Pair al ia by (auto simp add: apply_node_def list_update_beyond)
      qed
    next
      case False
      then show ?thesis using Pair by (simp add: apply_node_def)
    qed
  next
    case False
    then show ?thesis using Pair by (auto simp add: apply_node_def list_update_beyond)
  qed
qed

lemma update_neighbors_fields [simp]:
  "row (update_neighbors n g) = row n" "col (update_neighbors n g) = col n"
  "color (update_neighbors n g) = color n" "total_rows (update_neighbors n g) = total_rows n"
  by (simp_all add: update_neighbors_def)

lemma update_neighbors_list:
  "neighbors (update_neighbors n g) =
     (if row n < total_rows n - 1 \<and> color (g ! (row n + 1) ! col n) \<noteq> BLACK then [(row n + 1, col n)] else [])
     @ (if 0 < row n \<and> color (g ! (row n - 1) ! col n) \<noteq> BLACK then [(row n - 1, col n)] else [])
     @ (if col n < total_rows n - 1 \<and> color (g ! row n ! (col n + 1)) \<noteq> BLACK then [(row n, col n + 1)] else [])
     @ (if 0 < col n \<and> color (g ! row n ! (col n - 1)) \<noteq> BLACK then [(row n, col n - 1)] else [])"
  by (simp add: update_neighbors_def is_barrier_def)

lemma same_static_refl: "same_static gr gr"
  by (simp add: same_static_def)

lemma same_static_step:
  "same_static gr g \<Longrightarrow> same_static gr (apply_node (\<lambda>n. update_neighbors n g) p g)"
  by (simp add: same_static_def apply_node_nth)

lemma update_neighbors_derived:
  assumes "grid_shape R gr" "same_static gr g" "i < R" "j < R"
  shows "neighbors (update_neighbors (g ! i ! j) g) = derived gr (i, j)"
proof -
  have len: "length gr = R" and rl: "\<And>a. a < R \<Longrightarrow> length (gr ! a) = R"
    using assms(1) by (simp_all add: grid_shape_def)
  have f: "\<And>a b. a < R \<Longrightarrow> b < R \<Longrightarrow> color (g ! a ! b) = color (gr ! a ! b)"
    using assms(2) len rl by (simp add: same_static_def)
  have r: "row (g ! i ! j) = i" "col (g ! i ! j) = j" "total_rows (g ! i ! j) = R"
    using assms len rl by (simp_all add: same_static_def grid_shape_def)
  have c1: "(i < R - 1) = (i + 1 < R)" "(j < R - 1) = (j + 1 < R)" by auto
  have e1: "i + 1 < R \<Longrightarrow> color (g ! (i + 1) ! j) = color (gr ! (i + 1) ! j)"
    using f assms(4) by simp
  have e2: "0 < i \<Longrightarrow> color (g ! (i - 1) ! j) = color (gr ! (i - 1) ! j)"
    using f [of "i - 1" j] assms(3,4) by simp
  have e3: "j + 1 < R \<Longrightarrow> color (g ! i ! (j + 1)) = color (gr ! i ! (j + 1))"
    using f assms(3) by simp
  have e4: "0 < j \<Longrightarrow> color (g ! i ! (j - 1)) = color (gr ! i ! (j - 1))"
    using f [of i "j - 1"] assms(3,4) by simp
  have p1: "(if i + 1 < R \<and> color (g ! (i + 1) ! j) \<noteq> BLACK then [(i + 1, j)] else [])
          = (if i + 1 < R \<and> color (gr ! (i + 1) ! j) \<noteq> BLACK then [(i + 1, j)] else [])"
    using e1 by auto
  have p2: "(if 0 < i \<and> color (g ! (i - 1) ! j) \<noteq> BLACK then [(i - 1, j)] else [])
          = (if 0 < i \<and> color (gr ! (i - 1) ! j) \<noteq> BLACK then [(i - 1, j)] else [])"
    using e2 by auto
  have p3: "(if j + 1 < R \<and> color (g ! i ! (j + 1)) \<noteq> BLACK then [(i, j + 1)] else [])
          = (if j + 1 < R \<and> color (gr ! i ! (j + 1)) \<noteq> BLACK then [(i, j + 1)] else [])"
    using e3 by auto
  have p4: "(if 0 < j \<and> color (g ! i ! (j - 1)) \<noteq> BLACK then [(i, j - 1)] else [])
          = (if 0 < j \<and> color (gr ! i ! (j - 1)) \<noteq> BLACK then [(i, j - 1)] else [])"
    using e4 by auto
  show ?thesis
    unfolding update_neighbors_list r derived_def fst_conv snd_conv len c1 p1 p2 p3 p4 ..
qed


lemma derive_fold:
  assumes "grid_shape R gr"
  shows "same_static gr g \<Longrightarrow>
         same_static gr (foldl (\<lambda>g p. apply_node (\<lambda>n. update_neighbors n g) p g) g ps)
         \<and> (\<forall>i<R. \<forall>j<R. (i, j) \<in> set ps \<or> neighbors (g ! i ! j) = derived gr (i, j) \<longrightarrow>
               neighbors (foldl (\<lambda>g p. apply_node (\<lambda>n. update_neighbors n g) p g) g ps ! i ! j)
                 = derived gr (i, j))"
proof (induction ps arbitrary: g)
  case Nil
  then show ?case by simp
next
  case (Cons p ps)
  let ?g = "apply_node (\<lambda>n. update_neighbors n g) p g"
  have len: "length gr = R" and rl: "\<And>a. a < R \<Longrightarrow> length (gr ! a) = R"
    using assms by (simp_all add: grid_shape_def)
  have gl: "length g = R" and grl: "\<And>a. a < R \<Longrightarrow> length (g ! a) = R"
    using Cons.prems len rl by (simp_all add: same_static_def)
  have st: "same_static gr ?g" using Cons.prems by (rule same_static_step)
  have keep: "neighbors (?g ! i ! j) = derived gr (i, j)"
    if "i < R" "j < R" "(i, j) = p \<or> neighbors (g ! i ! j) = derived gr (i, j)" for i j
  proof (cases "(i, j) = p")
    case True
    then have "?g ! i ! j = update_neighbors (g ! i ! j) g"
      using that gl grl by (simp add: apply_node_nth)
    then show ?thesis
      using update_neighbors_derived [OF assms Cons.prems that(1,2)] by simp
  next
    case False
    then show ?thesis using that by (simp add: apply_node_nth)
  qed
  from Cons.IH [OF st] keep show ?case by auto
qed

lemma all_nodes_shape:
  assumes "grid_shape R gr"
  shows "set (all_nodes gr) = {p. fst p < R \<and> snd p < R}"
proof -
  have len: "length gr = R" and rl: "\<And>a. a < R \<Longrightarrow> length (gr ! a) = R"
    using assms by (simp_all add: grid_shape_def)
  show ?thesis
    by (auto simp: all_nodes_def len rl)
qed

lemma derive_adjacency_static:
  assumes "grid_shape R gr"
  shows "same_static gr (derive_adjacency gr)"
  using derive_fold [OF assms same_static_refl, of "all_nodes gr"]
  by (simp add: derive_adjacency_def)

lemma derive_adjacency_derived:
  assumes "grid_shape R gr" "i < R" "j < R"
  shows "neighbors (node_at (derive_adjacency gr) (i, j)) = derived gr (i, j)"
proof -
  have "(i, j) \<in> set (all_nodes gr)"
    using assms by (simp add: all_nodes_shape [OF assms(1)])
  then show ?thesis
    using derive_fold [OF assms(1) same_static_refl, of "all_nodes gr"] assms(2,3)
    by (simp add: derive_adjacency_def node_at_def)
qed

lemma mem_if_single: "(q \<in> set (if c then [x] else [])) = (c \<and> q = x)"
  by (cases c) simp_all

lemma mem_derived:
  assumes "length gr = R" "i < R" "j < R"
  shows "((a, b) \<in> set (derived gr (i, j)))
           = (a < R \<and> b < R \<and> adjacent (i, j) (a, b) \<and> color (node_at gr (a, b)) \<noteq> BLACK)"
proof -
  let ?C = "color (gr ! a ! b) \<noteq> BLACK"
  have m1: "((i + 1 < R \<and> color (gr ! (i + 1) ! j) \<noteq> BLACK) \<and> (a, b) = (i + 1, j))
              = (a < R \<and> b < R \<and> (a = i + 1 \<and> b = j) \<and> ?C)"
    using assms(3) by auto
  have m2: "((0 < i \<and> color (gr ! (i - 1) ! j) \<noteq> BLACK) \<and> (a, b) = (i - 1, j))
              = (a < R \<and> b < R \<and> (a + 1 = i \<and> b = j) \<and> ?C)"
    using assms(2,3) by auto
  have m3: "((j + 1 < R \<and> color (gr ! i ! (j + 1)) \<noteq> BLACK) \<and> (a, b) = (i, j + 1))
              = (a < R \<and> b < R \<and> (a = i \<and> b = j + 1) \<and> ?C)"
    using assms(2) by auto
  have m4: "((0 < j \<and> color (gr ! i ! (j - 1)) \<noteq> BLACK) \<and> (a, b) = (i, j - 1))
              = (a < R \<and> b < R \<and> (a = i \<and> b + 1 = j) \<and> ?C)"
    using assms(2,3) by auto
  have "((a, b) \<in> set (derived gr (i, j)))
          = ((a < R \<and> b < R \<and> (a = i + 1 \<and> b = j) \<and> ?C) \<or> (a < R \<and> b < R \<and> (a + 1 = i \<and> b = j) \<and> ?C)
             \<or> (a < R \<and> b < R \<and> (a = i \<and> b = j + 1) \<and> ?C) \<or> (a < R \<and> b < R \<and> (a = i \<and> b + 1 = j) \<and> ?C))"
    unfolding derived_def set_append Un_iff mem_if_single fst_conv snd_conv assms(1) m1 m2 m3 m4
    by (simp only: disj_assoc)
  also have "\<dots> = (a < R \<and> b < R \<and> adjacent (i, j) (a, b) \<and> color (node_at gr (a, b)) \<noteq> BLACK)"
    unfolding adjacent_def node_at_def fst_conv snd_conv by blast
  finally show ?thesis .
qed

lemma set_derived:
  assumes "length gr = R" "fst p < R" "snd p < R"
  shows "set (derived gr p) = {q. fst q < R \<and> snd q < R \<and> adjacent p q \<and> color (node_at gr q) \<noteq> BLACK}"
proof -
  obtain i j where p: "p = (i, j)" by (cases p)
  have "\<And>q. (q \<in> set (derived gr (i, j)))
          = (fst q < R \<and> snd q < R \<and> adjacent (i, j) q \<and> color (node_at gr q) \<noteq> BLACK)"
  proof -
    fix q :: pos
    obtain a b where q: "q = (a, b)" by (cases q)
    show "(q \<in> set (derived gr (i, j)))
          = (fst q < R \<and> snd q < R \<and> adjacent (i, j) q \<and> color (node_at gr q) \<noteq> BLACK)"
      unfolding q using mem_derived [OF assms(1), of i j a b] assms(2,3) p by simp
  qed
  then show ?thesis unfolding p by blast
qed

lemma distinct_derived: "distinct (derived gr p)"
proof (cases p)
  case (Pair i j)
  have "(i + 1, j) \<noteq> (i, j + 1)" "(i + 1, j) \<noteq> (i, j - 1)" "(i, j + 1) \<noteq> (i, j - 1)"
    "0 < i \<Longrightarrow> (i + 1, j) \<noteq> (i - 1, j)" "0 < i \<Longrightarrow> (i - 1, j) \<noteq> (i, j + 1)"
    "0 < i \<Longrightarrow> (i - 1, j) \<noteq> (i, j - 1)" "0 < j \<Longrightarrow> (i, j + 1) \<noteq> (i, j - 1)"
    by auto
  then show ?thesis
    unfolding Pair derived_def fst_conv snd_conv distinct_append set_append
    by (simp only: mem_if_single Int_iff Un_iff empty_iff distinct.simps split: if_split) auto
qed

lemma grid_shape_apply_node:
  assumes "grid_shape R gr" "\<And>n. row (m n) = row n \<and> col (m n) = col n \<and> total_rows (m n) = total_rows n"
  shows "grid_shape R (apply_node m p gr)"
  using assms by (simp add: grid_shape_def apply_node_nth)

lemma recolour_fields [simp]:
  "row (make_start n) = row n" "col (make_start n) = col n" "total_rows (make_start n) = total_rows n"
  "row (make_end n) = row n" "col (make_end n) = col n" "total_rows (make_end n) = total_rows n"
  "row (make_barrier n) = row n" "col (make_barrier n) = col n" "total_rows (make_barrier n) = total_rows n"
  "row (make_open n) = row n" "col (make_open n) = col n" "total_rows (make_open n) = total_rows n"
  "row (make_closed n) = row n" "col (make_closed n) = col n" "total_rows (make_closed n) = total_rows n"
  "row (make_path n) = row n" "col (make_path n) = col n" "total_rows (make_path n) = total_rows n"
  "row (reset n) = row n" "col (reset n) = col n" "total_rows (reset n) = total_rows n"
  by (simp_all add: make_start_def make_end_def make_barrier_def make_open_def make_closed_def
      make_path_def reset_def)

lemma recolour_neighbors [simp]:
  "neighbors (make_start n) = neighbors n" "neighbors (make_end n) = neighbors n"
  "neighbors (make_barrier n) = neighbors n" "neighbors (make_open n) = neighbors n"
  "neighbors (make_closed n) = neighbors n" "neighbors (make_path n) = neighbors n"
  "neighbors (reset n) = neighbors n"
  by (simp_all add: make_start_def make_end_def make_barrier_def make_open_def make_closed_def
      make_path_def reset_def)

lemma recolour_color [simp]:
  "color (make_start n) = ORANGE" "color (make_end n) = TURQUOISE"
  "color (make_barrier n) = BLACK" "color (make_open n) = GREEN"
  "color (make_closed n) = RED" "color (make_path n) = PURPLE" "color (reset n) = WHITE"
  by (simp_all add: make_start_def make_end_def make_barrier_def make_open_def make_closed_def
      make_path_def reset_def)

lemma example_wall_shape: "grid_shape 3 example_wall"
  unfolding example_wall_def
  by (intro grid_shape_apply_node make_grid_shape [of 3 500]) (simp_all add: make_grid_def)

text \<open>
  Claim C8: after the adjacency pass over an \<open>R\<close> by \<open>R\<close> grid the neighbour list of the node
  of cell \<open>(i, j)\<close> holds exactly the cells one axis-aligned step away that lie inside the
  grid and are not barriers, each once; the pass changes no status, so "barrier" means the
  same before and after it.
\<close>

theorem derive_adjacency_neighbors:
  assumes "grid_shape R gr" "i < R" "j < R"
  shows "set (neighbors (node_at (derive_adjacency gr) (i, j)))
           = {q. fst q < R \<and> snd q < R \<and> adjacent (i, j) q \<and> \<not> is_barrier (node_at gr q)}
         \<and> distinct (neighbors (node_at (derive_adjacency gr) (i, j)))
         \<and> (\<forall>a<R. \<forall>b<R. is_barrier (node_at (derive_adjacency gr) (a, b)) = is_barrier (node_at gr (a, b)))"
proof -
  have len: "length gr = R" and rl: "\<And>a. a < R \<Longrightarrow> length (gr ! a) = R"
    using assms by (simp_all add: grid_shape_def)
  have "\<forall>a<R. \<forall>b<R. color (node_at (derive_adjacency gr) (a, b)) = color (node_at gr (a, b))"
    using derive_adjacency_static [OF assms(1)] len rl by (simp add: same_static_def node_at_def)
  then show ?thesis
    using derive_adjacency_derived [OF assms] set_derived [OF len, of "(i, j)"] assms(2,3)
    by (simp add: distinct_derived is_barrier_def)
qed

theorem derive_adjacency_neighbors_witness:
  "grid_shape 3 example_wall
   \<and> set (neighbors (node_at (derive_adjacency example_wall) (0, 1)))
       = {q. fst q < 3 \<and> snd q < 3 \<and> adjacent (0, 1) q \<and> \<not> is_barrier (node_at example_wall q)}
   \<and> distinct (neighbors (node_at (derive_adjacency example_wall) (0, 1)))
   \<and> is_barrier (node_at (derive_adjacency example_wall) (1, 1)) = is_barrier (node_at example_wall (1, 1))"
  using derive_adjacency_neighbors [OF example_wall_shape, of 0 1] example_wall_shape
  by simp

section \<open>The priority queue returns a least entry\<close>

lemma key_less_trans: "key_less a b \<Longrightarrow> key_less b c \<Longrightarrow> key_less a c"
  by (auto simp: key_less_def)

lemma key_less_total: "\<not> key_less a b \<Longrightarrow> \<not> key_less b c \<Longrightarrow> \<not> key_less a c"
  by (auto simp: key_less_def)

lemma pq_min_mem: "pq_min m es \<in> set (m # es)"
  by (induction es arbitrary: m) (auto split: if_splits)

lemma pq_min_least: "e \<in> set (m # es) \<Longrightarrow> \<not> key_less e (pq_min m es)"
proof (induction es arbitrary: m e)
  case Nil
  then show ?case by (simp add: key_less_def)
next
  case (Cons x xs)
  let ?m = "if key_less x m then x else m"
  have r: "\<And>y. y \<in> set (?m # xs) \<Longrightarrow> \<not> key_less y (pq_min ?m xs)"
    using Cons.IH by blast
  have rm: "\<not> key_less ?m (pq_min ?m xs)" using r by simp
  have "\<not> key_less m ?m" "\<not> key_less x ?m"
    by (auto simp: key_less_def)
  then have "\<not> key_less m (pq_min ?m xs)" "\<not> key_less x (pq_min ?m xs)"
    using rm key_less_total by blast+
  note mx = this
  have res: "pq_min m (x # xs) = pq_min ?m xs" by simp
  from Cons.prems consider "e = m" | "e = x" | "e \<in> set xs" by auto
  then show ?case
  proof cases
    case 1
    then show ?thesis unfolding res using mx(1) by simp
  next
    case 2
    then show ?thesis unfolding res using mx(2) by simp
  next
    case 3
    then have "e \<in> set (?m # xs)" by simp
    then show ?thesis unfolding res by (rule r)
  qed
qed

lemma pq_get_Some:
  assumes "pq_get q = Some (m, q')"
  shows "m \<in> set q \<and> q' = remove1 m q \<and> (\<forall>e\<in>set q. \<not> key_less e m)"
proof (cases q)
  case Nil
  then show ?thesis using assms by (simp add: pq_get_def)
next
  case (Cons e es)
  have "pq_get q = Some (pq_min e es, remove1 (pq_min e es) q)"
    unfolding Cons by (simp add: pq_get_def Let_def del: remove1.simps)
  then have "m = pq_min e es" "q' = remove1 m q"
    using assms by simp_all
  then show ?thesis using pq_min_mem [of e es] pq_min_least [of _ e es] Cons by auto
qed

lemma pq_get_None: "(pq_get q = None) = pq_empty q"
  by (cases q) (simp_all add: pq_get_def pq_empty_def Let_def)

section \<open>The loops of the search\<close>

lemma node_call_fields [simp]:
  "count (node_call m p s) = count s" "open_set (node_call m p s) = open_set s"
  "came_from (node_call m p s) = came_from s" "g_score (node_call m p s) = g_score s"
  "f_score (node_call m p s) = f_score s" "open_set_hash (node_call m p s) = open_set_hash s"
  "grid (node_call m p s) = apply_node m p (grid s)"
  "trace (node_call m p s) = trace s @ [Mark p (color (m (node_at (grid s) p)))]"
  by (simp_all add: node_call_def)

lemma draw_fields [simp]:
  "count (draw s) = count s" "open_set (draw s) = open_set s"
  "came_from (draw s) = came_from s" "g_score (draw s) = g_score s"
  "f_score (draw s) = f_score s" "open_set_hash (draw s) = open_set_hash s"
  "grid (draw s) = grid s" "trace (draw s) = trace s @ [Draw (grid s)]"
  by (simp_all add: draw_def)

lemma for_body_Inr:
  assumes "for_body endn c n s = Inr s'"
  shows "c \<in> dom (g_score s)" "n \<in> dom (g_score s)"
    "came_from s' = (if relaxes s c n then (came_from s)(n \<mapsto> c) else came_from s)"
    "g_score s' = (if relaxes s c n then (g_score s)(n \<mapsto> new_g s c) else g_score s)"
    "f_score s' = (if relaxes s c n then (f_score s)(n \<mapsto> new_f endn s c n) else f_score s)"
    "count s' = (if relaxes s c n \<and> n \<notin> open_set_hash s then count s + 1 else count s)"
    "open_set s' = (if relaxes s c n \<and> n \<notin> open_set_hash s
                    then open_set s @ [(new_f endn s c n, count s + 1, n)] else open_set s)"
    "open_set_hash s' = (if relaxes s c n then insert n (open_set_hash s) else open_set_hash s)"
    "grid s' = (if relaxes s c n \<and> n \<notin> open_set_hash s then apply_node make_open n (grid s) else grid s)"
    "trace s' = (if relaxes s c n \<and> n \<notin> open_set_hash s then trace s @ [Mark n GREEN] else trace s)"
  using assms
  by (auto simp: for_body_def relaxes_def new_g_def new_f_def Let_def pq_put_def make_open_def
      split: option.splits if_splits)

lemma for_body_defined:
  assumes "c \<in> dom (g_score s)" "n \<in> dom (g_score s)"
  shows "\<exists>s'. for_body endn c n s = Inr s'"
  using assms by (auto simp: for_body_def Let_def split: option.splits)

lemma for_neighbors_rule:
  assumes "for_neighbors endn c ns s = Inr s'" "P s"
    and "\<And>n t t'. n \<in> set ns \<Longrightarrow> P t \<Longrightarrow> for_body endn c n t = Inr t' \<Longrightarrow> P t'"
  shows "P s'"
  using assms
proof (induction ns arbitrary: s)
  case Nil
  then show ?case by simp
next
  case (Cons n ns)
  from Cons.prems(1) obtain t where t: "for_body endn c n s = Inr t" "for_neighbors endn c ns t = Inr s'"
    by (auto split: sum.splits)
  have pt: "P t" using Cons.prems(3) [OF _ Cons.prems(2) t(1)] by simp
  show ?case
  proof (rule Cons.IH [OF t(2) pt])
    fix k u u'
    assume "k \<in> set ns" "P u" "for_body endn c k u = Inr u'"
    then show "P u'" using Cons.prems(3) [of k u u'] by simp
  qed
qed

lemma for_neighbors_defined:
  assumes "P s"
    and "\<And>n t. n \<in> set ns \<Longrightarrow> P t \<Longrightarrow> \<exists>t'. for_body endn c n t = Inr t' \<and> P t'"
  shows "\<exists>s'. for_neighbors endn c ns s = Inr s'"
  using assms
proof (induction ns arbitrary: s)
  case Nil
  then show ?case by simp
next
  case (Cons n ns)
  from Cons.prems(2) [OF _ Cons.prems(1), of n] obtain t where t: "for_body endn c n s = Inr t" "P t"
    by auto
  have "\<exists>s'. for_neighbors endn c ns t = Inr s'"
  proof (rule Cons.IH [OF t(2)])
    fix k u
    assume "k \<in> set ns" "P u"
    then show "\<exists>t'. for_body endn c k u = Inr t' \<and> P t'" using Cons.prems(2) [of k u] by simp
  qed
  then show ?case using t(1) by simp
qed

lemma pop_fields [simp]:
  "count (pop s m q) = count s" "open_set (pop s m q) = q"
  "came_from (pop s m q) = came_from s" "g_score (pop s m q) = g_score s"
  "f_score (pop s m q) = f_score s" "open_set_hash (pop s m q) = open_set_hash s - {snd (snd m)}"
  "grid (pop s m q) = grid s" "trace (pop s m q) = trace s"
  by (simp_all add: pop_def)

lemma loop_body_cases:
  "loop_body start endn s =
     (case pq_get (open_set s) of
        None \<Rightarrow> None
      | Some (m, q) \<Rightarrow>
          if snd (snd m) \<notin> open_set_hash s then Some (Raise KeyError)
          else if snd (snd m) = endn then
            (case reconstruct_path (came_from s) endn (pop s m q) of
               None \<Rightarrow> None
             | Some s2 \<Rightarrow> Some (Return True (node_call make_end endn s2)))
          else
            (case for_neighbors endn (snd (snd m)) (neighbors (node_at (grid s) (snd (snd m)))) (pop s m q) of
               Inl err \<Rightarrow> Some (Raise err)
             | Inr s2 \<Rightarrow>
                 Some (Continue (if snd (snd m) \<noteq> start
                                 then node_call make_closed (snd (snd m)) (draw s2) else draw s2))))"
  by (simp add: loop_body_def pop_def Let_def split: option.splits prod.splits sum.splits)

lemma loop_body_Continue:
  assumes "loop_body start endn s = Some (Continue s')"
  obtains m q s2 where "pq_get (open_set s) = Some (m, q)" "snd (snd m) \<in> open_set_hash s"
    "snd (snd m) \<noteq> endn"
    "for_neighbors endn (snd (snd m)) (neighbors (node_at (grid s) (snd (snd m)))) (pop s m q) = Inr s2"
    "s' = (if snd (snd m) \<noteq> start then node_call make_closed (snd (snd m)) (draw s2) else draw s2)"
  using assms unfolding loop_body_cases
  by (auto split: option.splits if_splits sum.splits)

lemma loop_body_Return:
  assumes "loop_body start endn s = Some (Return b s')"
  obtains m q s2 where "pq_get (open_set s) = Some (m, q)" "snd (snd m) \<in> open_set_hash s"
    "snd (snd m) = endn" "reconstruct_path (came_from s) endn (pop s m q) = Some s2"
    "s' = node_call make_end endn s2" "b"
  using assms unfolding loop_body_cases
  by (auto split: option.splits if_splits sum.splits)

lemma while_loop_partial:
  assumes "while_loop start endn s = Some r" "I s"
    and "\<And>t t'. I t \<Longrightarrow> \<not> pq_empty (open_set t) \<Longrightarrow> loop_body start endn t = Some (Continue t') \<Longrightarrow> I t'"
  shows "\<exists>t. I t \<and> loop_exit start endn t r"
proof -
  have "start = start \<and> endn = endn \<and> I s \<longrightarrow> (\<exists>t. I t \<and> loop_exit start endn t r)"
  proof (rule while_loop.raw_induct
      [where P = "\<lambda>a b u v. a = start \<and> b = endn \<and> I u \<longrightarrow> (\<exists>t. I t \<and> loop_exit start endn t v)",
        OF _ assms(1)])
    fix f a b u v
    assume ih: "\<And>a b u v. f a b u = Some v \<Longrightarrow> a = start \<and> b = endn \<and> I u \<longrightarrow> (\<exists>t. I t \<and> loop_exit start endn t v)"
      and eq: "(if pq_empty (open_set u) then Some (Inr (False, u))
                else case loop_body a b u of None \<Rightarrow> None
                     | Some (Raise err) \<Rightarrow> Some (Inl err)
                     | Some (Return b s') \<Rightarrow> Some (Inr (b, s'))
                     | Some (Continue s') \<Rightarrow> f a b s') = Some v"
    show "a = start \<and> b = endn \<and> I u \<longrightarrow> (\<exists>t. I t \<and> loop_exit start endn t v)"
    proof
      assume h: "a = start \<and> b = endn \<and> I u"
      show "\<exists>t. I t \<and> loop_exit start endn t v"
      proof (cases "pq_empty (open_set u)")
        case True
        then have "loop_exit start endn u v" using eq by (auto simp: loop_exit_def)
        then show ?thesis using h by blast
      next
        case False
        then obtain x where x: "loop_body start endn u = Some x"
          using eq h by (auto split: option.splits)
        show ?thesis
        proof (cases x)
          case (Raise e)
          then have "loop_exit start endn u v" using eq x h False by (auto simp: loop_exit_def)
          then show ?thesis using h by blast
        next
          case (Return c u')
          then have "loop_exit start endn u v" using eq x h False by (auto simp: loop_exit_def)
          then show ?thesis using h by blast
        next
          case (Continue u')
          then have "f start endn u' = Some v" using eq x h False by simp
          moreover have "I u'" using assms(3) [of u u'] h False x Continue by simp
          ultimately show ?thesis using ih [of start endn u' v] by simp
        qed
      qed
    qed
  qed
  then show ?thesis using assms(2) by simp
qed

lemma while_loop_total:
  assumes "wf R" "I s"
    and "\<And>t. I t \<Longrightarrow> \<not> pq_empty (open_set t) \<Longrightarrow>
            \<exists>x. loop_body start endn t = Some x \<and> (\<forall>t'. x = Continue t' \<longrightarrow> I t' \<and> (t', t) \<in> R)"
  shows "\<exists>r. while_loop start endn s = Some r"
  using assms(1,2)
proof (induction s rule: wf_induct_rule)
  case (less s)
  show ?case
  proof (cases "pq_empty (open_set s)")
    case True
    then show ?thesis by (subst while_loop.simps) simp
  next
    case False
    from assms(3) [OF less.prems False] obtain x where
      x: "loop_body start endn s = Some x" "\<forall>t'. x = Continue t' \<longrightarrow> I t' \<and> (t', s) \<in> R"
      by blast
    show ?thesis
    proof (cases x)
      case (Continue u)
      then have "\<exists>r. while_loop start endn u = Some r" using less.IH [of u] x(2) by simp
      then show ?thesis using False x(1) Continue by (subst while_loop.simps) simp
    qed (use False x(1) in \<open>subst while_loop.simps, simp\<close>)+
  qed
qed

section \<open>The queue in the states of the search\<close>

lemma queue_inv_init: "queue_inv (init_state gr start endn)"
  by (simp add: queue_inv_def init_state_def pq_put_def)

lemma sorted_wrt_remove1: "sorted_wrt P xs \<Longrightarrow> sorted_wrt P (remove1 x xs)"
  by (induction xs) (auto dest: notin_set_remove1)

lemma map_remove1_distinct:
  "distinct (map f xs) \<Longrightarrow> x \<in> set xs \<Longrightarrow> map f (remove1 x xs) = remove1 (f x) (map f xs)"
proof (induction xs)
  case Nil
  then show ?case by simp
next
  case (Cons a xs)
  show ?case
  proof (cases "x = a")
    case True
    then show ?thesis by simp
  next
    case False
    then have "x \<in> set xs" using Cons.prems by simp
    then have "f x \<noteq> f a" using Cons.prems(1) by (auto simp: image_iff)
    then show ?thesis using False Cons \<open>x \<in> set xs\<close> by simp
  qed
qed

lemma queue_inv_pop:
  assumes "queue_inv s" "pq_get (open_set s) = Some (m, q)"
  shows "queue_inv (pop s m q)"
proof -
  from pq_get_Some [OF assms(2)] have m: "m \<in> set (open_set s)" and q: "q = remove1 m (open_set s)"
    by simp_all
  have d: "distinct (map (snd \<circ> snd) (open_set s))"
    using assms(1) by (simp add: queue_inv_def)
  have mp: "map (snd \<circ> snd) q = remove1 (snd (snd m)) (map (snd \<circ> snd) (open_set s))"
    unfolding q using map_remove1_distinct [OF d m] by simp
  have mc: "map (fst \<circ> snd) q = map (fst \<circ> snd) (remove1 m (open_set s))"
    unfolding q ..
  have s1: "sorted_wrt (<) (map (fst \<circ> snd) q)"
    unfolding q using assms(1) by (simp add: queue_inv_def sorted_wrt_map sorted_wrt_remove1)
  have s2: "\<forall>e\<in>set q. fst (snd e) \<le> count s"
    unfolding q using assms(1) by (auto simp: queue_inv_def dest: notin_set_remove1)
  have s4: "distinct (map (snd \<circ> snd) q)"
    unfolding mp using d by simp
  have "set (map (snd \<circ> snd) q) = set (map (snd \<circ> snd) (open_set s)) - {snd (snd m)}"
    unfolding mp using d by simp
  then have s3: "open_set_hash s - {snd (snd m)} = (snd \<circ> snd) ` set q"
    using assms(1) by (simp add: queue_inv_def)
  show ?thesis
    using s1 s2 s3 s4 by (simp add: queue_inv_def)
qed

lemma queue_inv_for_body:
  assumes "queue_inv s" "for_body endn c n s = Inr s'"
  shows "queue_inv s'"
proof (cases "relaxes s c n \<and> n \<notin> open_set_hash s")
  case True
  note fb = for_body_Inr(6,7,8) [OF assms(2)]
  have os: "open_set s' = open_set s @ [(new_f endn s c n, count s + 1, n)]"
    and cs: "count s' = count s + 1" and hs: "open_set_hash s' = insert n (open_set_hash s)"
    using fb True by simp_all
  show ?thesis
    using assms(1) True unfolding queue_inv_def os cs hs
    by (auto simp: sorted_wrt_append)
next
  case False
  note fb = for_body_Inr(6,7,8) [OF assms(2)]
  have os: "open_set s' = open_set s" and cs: "count s' = count s"
    using fb False by auto
  have hs: "open_set_hash s' = open_set_hash s"
    using fb(3) False by (auto simp: insert_absorb)
  show ?thesis
    using assms(1) unfolding queue_inv_def os cs hs .
qed

lemma queue_inv_frame:
  assumes "queue_inv s" "open_set t = open_set s" "count t = count s" "open_set_hash t = open_set_hash s"
  shows "queue_inv t"
  using assms by (simp add: queue_inv_def)

lemma queue_inv_step:
  assumes "queue_inv s" "loop_body start endn s = Some (Continue s')"
  shows "queue_inv s'"
proof -
  from assms(2) obtain m q s2 where
    g: "pq_get (open_set s) = Some (m, q)"
    and f: "for_neighbors endn (snd (snd m)) (neighbors (node_at (grid s) (snd (snd m)))) (pop s m q) = Inr s2"
    and s': "s' = (if snd (snd m) \<noteq> start then node_call make_closed (snd (snd m)) (draw s2) else draw s2)"
    by (rule loop_body_Continue)
  have "queue_inv s2"
    using f queue_inv_pop [OF assms(1) g] queue_inv_for_body by (rule for_neighbors_rule)
  then show ?thesis unfolding s' by (auto intro: queue_inv_frame)
qed

lemma reachable_queue_inv: "reachable gr start endn s \<Longrightarrow> queue_inv s"
  by (induction rule: reachable.induct) (auto intro: queue_inv_init queue_inv_step)

lemma example_state_reachable: "reachable example_open (0, 0) (0, 1) example_state"
proof -
  let ?s0 = "init_state example_open (0, 0) (0, 1)"
  have "case loop_body (0, 0) (0, 1) ?s0 of Some (Continue s) \<Rightarrow> True | _ \<Rightarrow> False"
    by code_simp
  then obtain s' where s': "loop_body (0, 0) (0, 1) ?s0 = Some (Continue s')"
    by (auto split: option.splits step_result.splits)
  then have e: "example_state = s'" by (simp add: example_state_def continue_of_def)
  have "\<not> pq_empty (open_set ?s0)" by (simp add: init_state_def pq_empty_def pq_put_def)
  then show ?thesis unfolding e using reach_step [OF reach_init _ s'] by simp
qed

lemma example_state_queue:
  "open_set example_state = [(3, 1, (1, 0)), (1, 2, (0, 1))]" "count example_state = 2"
  by code_simp+

section \<open>What the search keeps true of its scores\<close>

lemma recoloured_refl: "recoloured gr gr"
  by (simp add: recoloured_def)

lemma recoloured_apply_node:
  assumes "recoloured gr g"
    and "\<And>n. row (m n) = row n \<and> col (m n) = col n \<and> neighbors (m n) = neighbors n
               \<and> total_rows (m n) = total_rows n"
  shows "recoloured gr (apply_node m p g)"
  using assms by (auto simp add: recoloured_def node_at_def apply_node_nth)

lemma recoloured_marks:
  assumes "recoloured gr g"
  shows "recoloured gr (apply_node make_open p g)" "recoloured gr (apply_node make_closed p g)"
    "recoloured gr (apply_node make_path p g)" "recoloured gr (apply_node make_end p g)"
  using assms by (simp_all add: recoloured_apply_node)


lemma map_of_inf: "map_of (map (\<lambda>p. (p, \<infinity>)) xs) n = Some v \<Longrightarrow> v = (\<infinity>::enat)"
  by (induction xs) (auto split: if_splits)

lemma dom_map_of_inf: "dom (map_of (map (\<lambda>p. (p, \<infinity>::enat)) xs)) = set xs"
  by (simp add: dom_map_of_conv_image_fst image_image)

lemma init_state_fields [simp]:
  "grid (init_state gr start endn) = gr" "count (init_state gr start endn) = 0"
  "open_set (init_state gr start endn) = [(0, 0, start)]"
  "came_from (init_state gr start endn) = Map.empty"
  "g_score (init_state gr start endn) = (map_of (map (\<lambda>p. (p, \<infinity>)) (all_nodes gr)))(start \<mapsto> 0)"
  "open_set_hash (init_state gr start endn) = {start}" "trace (init_state gr start endn) = []"
  by (simp_all add: init_state_def pq_put_def)

lemma score_inv_init: "score_inv gr start (init_state gr start endn)"
proof -
  have a: "n = start" if "g_score (init_state gr start endn) n = Some (enat a)" for n a
  proof (rule ccontr)
    assume "n \<noteq> start"
    then have "map_of (map (\<lambda>p. (p, \<infinity>)) (all_nodes gr)) n = Some (enat a)" using that by simp
    then show False using map_of_inf [of "all_nodes gr" n "enat a"] by simp
  qed
  have b: "dom (g_score (init_state gr start endn)) = insert start (set (all_nodes gr))"
    by (simp add: dom_map_of_inf)
  have c: "g_score (init_state gr start endn) start = Some 0" by simp
  have d: "\<exists>a. g_score (init_state gr start endn) start = Some (enat a)"
    by (simp add: zero_enat_def)
  show ?thesis
    unfolding score_inv_def using a b c d recoloured_refl [of gr]
    by (simp del: init_state_fields(5) add: init_state_fields(1,4,6))
qed

lemma score_inv_pop: "score_inv gr start s \<Longrightarrow> score_inv gr start (pop s m q)"
  by (simp add: score_inv_def)

lemma score_inv_for_body:
  assumes inv: "score_inv gr start s" and gc: "g_score s c = Some (enat a)"
    and nb: "n \<in> set (neighbors (node_at gr c))" and fb: "for_body endn c n s = Inr s'"
  shows "score_inv gr start s' \<and> g_score s' c = Some (enat a)"
proof (cases "relaxes s c n")
  case False
  have "came_from s' = came_from s" "g_score s' = g_score s" "open_set_hash s' = open_set_hash s"
    "grid s' = grid s"
    using for_body_Inr [OF fb] False by simp_all
  then show ?thesis using inv gc by (simp add: score_inv_def)
next
  case True
  then obtain gn where gn: "g_score s n = Some gn" "enat a + 1 < gn"
    using gc by (auto simp: relaxes_def)
  have ng: "new_g s c = enat (a + 1)" using gc by (simp add: new_g_def one_enat_def)
  have lt: "enat (a + 1) < gn" using gn(2) by (simp add: one_enat_def)
  have nc: "n \<noteq> c" using gn gc by auto
  have g0: "g_score s start = Some 0" using inv by (simp add: score_inv_def)
  have ns: "n \<noteq> start" using gn g0 by auto
  have cf: "came_from s' = (came_from s)(n \<mapsto> c)"
    and g': "g_score s' = (g_score s)(n \<mapsto> enat (a + 1))"
    and hs: "open_set_hash s' = insert n (open_set_hash s)"
    using for_body_Inr(3,4,8) [OF fb] True ng by simp_all
  have gr': "grid s' = grid s \<or> grid s' = apply_node make_open n (grid s)"
    using for_body_Inr(9) [OF fb] by simp
  have G1: "g_score s' start = Some 0" using g0 ns g' by simp
  have G2: "dom (g_score s') = insert start (set (all_nodes gr))"
    using inv gn(1) unfolding g' by (auto simp: score_inv_def)
  have G3: "k \<noteq> start \<and> k \<in> set (neighbors (node_at gr d))
            \<and> (\<exists>x y. g_score s' d = Some (enat x) \<and> g_score s' k = Some (enat y) \<and> x < y)"
    if "came_from s' k = Some d" for k d
  proof (cases "k = n")
    case True
    then have "d = c" using that cf by simp
    then show ?thesis using True ns nb nc gc g' by simp
  next
    case False
    then have old: "came_from s k = Some d" using that cf by simp
    then obtain x y where xy: "k \<noteq> start" "k \<in> set (neighbors (node_at gr d))"
      "g_score s d = Some (enat x)" "g_score s k = Some (enat y)" "x < y"
      using inv unfolding score_inv_def by blast
    show ?thesis
    proof (cases "d = n")
      case True
      then have "a + 1 < x" using xy(3) gn(1) lt by simp
      then show ?thesis using xy True False g' by simp
    next
      case dn: False
      then show ?thesis using xy False g' by simp
    qed
  qed
  have G4: "k = start \<or> k \<in> dom (came_from s')" if "g_score s' k = Some (enat x)" for k x
  proof (cases "k = n")
    case True
    then show ?thesis using cf by simp
  next
    case False
    then have "g_score s k = Some (enat x)" using that g' by simp
    then have "k = start \<or> k \<in> dom (came_from s)" using inv unfolding score_inv_def by blast
    then show ?thesis using cf by auto
  qed
  have G5: "\<exists>x. g_score s' k = Some (enat x)" if "k \<in> open_set_hash s'" for k
  proof (cases "k = n")
    case True
    then show ?thesis using g' by simp
  next
    case False
    then have "k \<in> open_set_hash s" using that hs by simp
    then show ?thesis using inv False g' by (simp add: score_inv_def)
  qed
  have "recoloured gr (grid s)" using inv by (simp add: score_inv_def)
  then have G6: "recoloured gr (grid s')"
    using gr' by (auto intro: recoloured_marks)
  have "g_score s' c = Some (enat a)" using g' nc gc by simp
  then show ?thesis
    unfolding score_inv_def using G1 G2 G3 G4 G5 G6 by blast
qed

lemma recoloured_node:
  assumes "recoloured gr g"
  shows "neighbors (node_at g p) = neighbors (node_at gr p)" "get_pos (node_at g p) = get_pos (node_at gr p)"
    "row (node_at g p) = row (node_at gr p)" "col (node_at g p) = col (node_at gr p)"
  using assms unfolding recoloured_def get_pos_def by blast+

lemma score_inv_recoloured: "score_inv gr start s \<Longrightarrow> recoloured gr (grid s)"
  by (simp add: score_inv_def)

lemma score_inv_frame:
  assumes "score_inv gr start s" "came_from t = came_from s" "g_score t = g_score s"
    "open_set_hash t = open_set_hash s" "recoloured gr (grid t)"
  shows "score_inv gr start t"
  using assms by (simp add: score_inv_def)

lemma score_inv_for_neighbors:
  assumes "score_inv gr start s" "g_score s c = Some (enat a)"
    and "set ns \<subseteq> set (neighbors (node_at gr c))"
    and "for_neighbors endn c ns s = Inr s'"
  shows "score_inv gr start s' \<and> g_score s' c = Some (enat a)"
  using assms(4)
proof (rule for_neighbors_rule)
  show "score_inv gr start s \<and> g_score s c = Some (enat a)" using assms by simp
next
  fix n t t'
  assume "n \<in> set ns" "score_inv gr start t \<and> g_score t c = Some (enat a)"
    "for_body endn c n t = Inr t'"
  then show "score_inv gr start t' \<and> g_score t' c = Some (enat a)"
    using score_inv_for_body [of gr start t c a n endn t'] assms(3) by auto
qed

lemma score_inv_step:
  assumes "score_inv gr start s" "loop_body start endn s = Some (Continue s')"
  shows "score_inv gr start s'"
proof -
  from assms(2) obtain m q s2 where
    g: "pq_get (open_set s) = Some (m, q)" and mh: "snd (snd m) \<in> open_set_hash s"
    and f: "for_neighbors endn (snd (snd m)) (neighbors (node_at (grid s) (snd (snd m)))) (pop s m q) = Inr s2"
    and s': "s' = (if snd (snd m) \<noteq> start then node_call make_closed (snd (snd m)) (draw s2) else draw s2)"
    by (rule loop_body_Continue)
  let ?c = "snd (snd m)"
  obtain a where a: "g_score s ?c = Some (enat a)"
    using assms(1) mh unfolding score_inv_def by blast
  have nb: "neighbors (node_at (grid s) ?c) = neighbors (node_at gr ?c)"
    using assms(1) by (simp add: recoloured_node score_inv_recoloured)
  have "score_inv gr start s2"
    using score_inv_for_neighbors [OF score_inv_pop [OF assms(1)] _ _ f, of a] a nb by simp
  then show ?thesis
    unfolding s' by (auto intro!: score_inv_frame [of gr start s2] recoloured_marks simp: score_inv_def)
qed

lemma reachable_score_inv: "reachable gr start endn s \<Longrightarrow> score_inv gr start s"
  by (induction rule: reachable.induct) (auto intro: score_inv_init score_inv_step)

lemma reconstruct_path_total:
  assumes "\<And>n c. cf n = Some c \<Longrightarrow> \<exists>a b. g c = Some (enat a) \<and> g n = Some (enat b) \<and> a < b"
  shows "\<exists>w'. reconstruct_path cf n w = Some w'"
proof -
  have "\<forall>n w. (\<forall>b. g n = Some (enat b) \<longrightarrow> b \<le> k) \<longrightarrow> (\<exists>w'. reconstruct_path cf n w = Some w')" for k
  proof (induction k)
    case 0
    show ?case
    proof (intro allI impI)
      fix n w
      assume b: "\<forall>b. g n = Some (enat b) \<longrightarrow> b \<le> 0"
      have "cf n = None"
      proof (rule ccontr)
        assume "cf n \<noteq> None"
        then obtain c where "cf n = Some c" by auto
        from assms [OF this] b show False by auto
      qed
      then show "\<exists>w'. reconstruct_path cf n w = Some w'"
        by (subst reconstruct_path.simps) simp
    qed
  next
    case (Suc k)
    show ?case
    proof (intro allI impI)
      fix n w
      assume b: "\<forall>b. g n = Some (enat b) \<longrightarrow> b \<le> Suc k"
      show "\<exists>w'. reconstruct_path cf n w = Some w'"
      proof (cases "cf n")
        case None
        then show ?thesis by (subst reconstruct_path.simps) simp
      next
        case (Some c)
        from assms [OF this] b have "\<forall>x. g c = Some (enat x) \<longrightarrow> x \<le> k" by auto
        then have "\<exists>w'. reconstruct_path cf c (draw (node_call make_path c w)) = Some w'"
          using Suc.IH by blast
        then show ?thesis using Some by (subst reconstruct_path.simps) simp
      qed
    qed
  qed
  moreover have "\<exists>k. \<forall>b. g n = Some (enat b) \<longrightarrow> b \<le> k"
    by (cases "g n") (auto, metis enat.exhaust enat.inject order_refl infinity_ne_i0 enat.distinct(1))
  ultimately show ?thesis by blast
qed

section \<open>The search loop terminates\<close>

lemma wf_search_measure: "wf search_measure"
  unfolding search_measure_def by (intro wf_inv_image wf_lex_prod wf_less_than)

lemma score_measure_relax:
  assumes fin: "finite (dom g)" and gn: "g n = Some gn" and lt: "enat k < gn"
  shows "(score_measure (g(n \<mapsto> enat k)), score_measure g) \<in> less_than <*lex*> less_than"
proof -
  let ?g = "g(n \<mapsto> enat k)"
  have nd: "n \<in> dom g" using gn by auto
  then have d: "dom ?g = dom g" by auto
  show ?thesis
  proof (cases gn)
    case infinity
    have e: "{x \<in> dom g. ?g x = Some \<infinity>} = {x \<in> dom g. g x = Some \<infinity>} - {n}" by auto
    have m: "n \<in> {x \<in> dom g. g x = Some \<infinity>}" using nd gn infinity by simp
    have f: "finite {x \<in> dom g. g x = Some \<infinity>}" using fin by simp
    have "card {x \<in> dom g. ?g x = Some \<infinity>} < card {x \<in> dom g. g x = Some \<infinity>}"
      unfolding e using f m by (rule card_Diff1_less)
    then show ?thesis unfolding score_measure_def d by simp
  next
    case (enat b)
    then have kb: "k < b" using lt by simp
    have e: "{x \<in> dom g. ?g x = Some \<infinity>} = {x \<in> dom g. g x = Some \<infinity>}"
      using gn enat by auto
    have s1: "(\<Sum>x\<in>dom g. fin (?g x)) = fin (?g n) + (\<Sum>x\<in>dom g - {n}. fin (?g x))"
      using fin nd by (rule sum.remove)
    have s2: "(\<Sum>x\<in>dom g. fin (g x)) = fin (g n) + (\<Sum>x\<in>dom g - {n}. fin (g x))"
      using fin nd by (rule sum.remove)
    have s3: "(\<Sum>x\<in>dom g - {n}. fin (?g x)) = (\<Sum>x\<in>dom g - {n}. fin (g x))"
      by (rule sum.cong) auto
    have "fin (?g n) = k" "fin (g n) = b" using gn enat by (simp_all add: fin_def)
    then have "(\<Sum>x\<in>dom g. fin (?g x)) < (\<Sum>x\<in>dom g. fin (g x))"
      unfolding s1 s2 s3 using kb by simp
    then show ?thesis unfolding score_measure_def d e by simp
  qed
qed

lemma for_body_measure:
  assumes "finite (dom (g_score s))" "for_body endn c n s = Inr s'" "g_score s c = Some (enat a)"
  shows "(g_score s' = g_score s \<and> open_set s' = open_set s)
         \<or> (score_measure (g_score s'), score_measure (g_score s)) \<in> less_than <*lex*> less_than"
proof (cases "relaxes s c n")
  case False
  then show ?thesis using for_body_Inr(4,7) [OF assms(2)] by simp
next
  case True
  then obtain gn where gn: "g_score s n = Some gn" "enat a + 1 < gn"
    using assms(3) by (auto simp: relaxes_def)
  have ng: "new_g s c = enat (a + 1)" using assms(3) by (simp add: new_g_def one_enat_def)
  have lt: "enat (a + 1) < gn" using gn(2) by (simp add: one_enat_def)
  have "g_score s' = (g_score s)(n \<mapsto> enat (a + 1))"
    using for_body_Inr(4) [OF assms(2)] True ng by simp
  then show ?thesis using score_measure_relax [OF assms(1) gn(1) lt] by simp
qed

lemma trans_lex2: "trans (less_than <*lex*> less_than)"
  by (intro trans_lex_prod trans_less_than)

lemma for_neighbors_measure:
  assumes inv: "score_inv gr start s" and gc: "g_score s c = Some (enat a)"
    and sub: "set ns \<subseteq> set (neighbors (node_at gr c))"
    and fn: "for_neighbors endn c ns s = Inr s'"
  shows "(g_score s' = g_score s \<and> open_set s' = open_set s)
         \<or> (score_measure (g_score s'), score_measure (g_score s)) \<in> less_than <*lex*> less_than"
proof -
  let ?P = "\<lambda>t. (score_inv gr start t \<and> g_score t c = Some (enat a))
        \<and> ((g_score t = g_score s \<and> open_set t = open_set s)
           \<or> (score_measure (g_score t), score_measure (g_score s)) \<in> less_than <*lex*> less_than)"
  have "?P s'"
    using fn
  proof (rule for_neighbors_rule)
    show "?P s" using inv gc by simp
  next
    fix n t t'
    assume n: "n \<in> set ns" and p: "?P t" and fb: "for_body endn c n t = Inr t'"
    have i': "score_inv gr start t' \<and> g_score t' c = Some (enat a)"
      using score_inv_for_body [of gr start t c a n endn t'] p n sub fb by auto
    have "finite (dom (g_score t))" using p unfolding score_inv_def by simp
    from for_body_measure [OF this fb] p
    have "(g_score t' = g_score t \<and> open_set t' = open_set t)
         \<or> (score_measure (g_score t'), score_measure (g_score t)) \<in> less_than <*lex*> less_than"
      by simp
    then show "?P t'"
      using i' p trans_lex2 [THEN transD] by metis
  qed
  then show ?thesis by simp
qed

lemma score_inv_dom:
  assumes "score_inv gr start s"
  shows "dom (g_score s) = insert start (set (all_nodes gr))"
  using assms by (simp add: score_inv_def)

lemma score_inv_decreasing:
  assumes "score_inv gr start s" "came_from s n = Some c"
  shows "\<exists>a b. g_score s c = Some (enat a) \<and> g_score s n = Some (enat b) \<and> a < b"
  using assms unfolding score_inv_def by blast

lemma for_neighbors_no_error:
  assumes inv: "score_inv gr start s" and cl: "closed_graph gr start"
    and gc: "g_score s c = Some (enat a)" and sub: "set ns \<subseteq> set (neighbors (node_at gr c))"
  shows "\<exists>s'. for_neighbors endn c ns s = Inr s'"
proof (rule for_neighbors_defined [where P = "\<lambda>t. score_inv gr start t \<and> g_score t c = Some (enat a)"])
  show "score_inv gr start s \<and> g_score s c = Some (enat a)" using inv gc by simp
next
  fix n t
  assume n: "n \<in> set ns" and p: "score_inv gr start t \<and> g_score t c = Some (enat a)"
  have d: "dom (g_score t) = set (all_nodes gr)"
    using score_inv_dom [of gr start t] p cl by (auto simp: closed_graph_def)
  have c: "c \<in> dom (g_score t)" using p by auto
  then have "c \<in> set (all_nodes gr)" using d by simp
  then have "n \<in> dom (g_score t)" using n sub cl d by (auto simp: closed_graph_def)
  from for_body_defined [OF c this] obtain t' where t': "for_body endn c n t = Inr t'" by blast
  then show "\<exists>t'. for_body endn c n t = Inr t' \<and> score_inv gr start t' \<and> g_score t' c = Some (enat a)"
    using score_inv_for_body [of gr start t c a n endn t'] p n sub by auto
qed

lemma loop_body_progress:
  assumes inv: "score_inv gr start s" and qi: "queue_inv s" and cl: "closed_graph gr start"
    and ne: "\<not> pq_empty (open_set s)"
  shows "\<exists>x. loop_body start endn s = Some x \<and> (\<forall>e. x \<noteq> Raise e)
            \<and> (\<forall>t. x = Continue t \<longrightarrow> (t, s) \<in> search_measure)"
proof -
  from ne obtain m q where g: "pq_get (open_set s) = Some (m, q)"
    using pq_get_None [of "open_set s"] by (cases "pq_get (open_set s)") auto
  let ?c = "snd (snd m)"
  from pq_get_Some [OF g] have m: "m \<in> set (open_set s)" and q: "q = remove1 m (open_set s)"
    by simp_all
  have mh: "?c \<in> open_set_hash s" using qi m by (auto simp: queue_inv_def)
  then obtain a where a: "g_score s ?c = Some (enat a)"
    using inv unfolding score_inv_def by blast
  show ?thesis
  proof (cases "?c = endn")
    case True
    have "\<exists>w'. reconstruct_path (came_from s) endn (pop s m q) = Some w'"
      using score_inv_decreasing [OF inv] by (rule reconstruct_path_total)
    then show ?thesis
      unfolding loop_body_cases using g mh True by auto
  next
    case False
    have nb: "neighbors (node_at (grid s) ?c) = neighbors (node_at gr ?c)"
      using inv by (simp add: recoloured_node score_inv_recoloured)
    have ip: "score_inv gr start (pop s m q)" using inv by (rule score_inv_pop)
    have ap: "g_score (pop s m q) ?c = Some (enat a)" using a by simp
    obtain s2 where s2: "for_neighbors endn ?c (neighbors (node_at (grid s) ?c)) (pop s m q) = Inr s2"
      using for_neighbors_no_error [OF ip cl ap, of "neighbors (node_at (grid s) ?c)" endn] nb by auto
    let ?t = "if ?c \<noteq> start then node_call make_closed ?c (draw s2) else draw s2"
    have lb: "loop_body start endn s = Some (Continue ?t)"
      unfolding loop_body_cases using g mh False s2 by simp
    have gt: "g_score ?t = g_score s2" "open_set ?t = open_set s2" by simp_all
    from for_neighbors_measure [OF ip ap _ s2] nb
    have "(g_score s2 = g_score s \<and> open_set s2 = q)
         \<or> (score_measure (g_score s2), score_measure (g_score s)) \<in> less_than <*lex*> less_than"
      by simp
    moreover have "length q < length (open_set s)"
      unfolding q using m by (simp add: length_remove1) (cases "open_set s"; simp)
    ultimately have "(?t, s) \<in> search_measure"
      unfolding search_measure_def gt by auto
    then show ?thesis using lb by simp
  qed
qed

lemma while_loop_returns:
  assumes "closed_graph gr start"
  shows "\<exists>b s. while_loop start endn (init_state gr start endn) = Some (Inr (b, s))"
proof -
  let ?I = "\<lambda>s. reachable gr start endn s"
  have step: "\<exists>x. loop_body start endn t = Some x \<and> (\<forall>e. x \<noteq> Raise e)
            \<and> (\<forall>t'. x = Continue t' \<longrightarrow> (t', t) \<in> search_measure)"
    if "?I t" "\<not> pq_empty (open_set t)" for t
    using loop_body_progress [OF reachable_score_inv [OF that(1)] reachable_queue_inv [OF that(1)] assms that(2)] .
  have "\<exists>r. while_loop start endn (init_state gr start endn) = Some r"
  proof (rule while_loop_total [OF wf_search_measure, where I = ?I])
    show "?I (init_state gr start endn)" by (rule reach_init)
  next
    fix t
    assume t: "?I t" "\<not> pq_empty (open_set t)"
    from step [OF t] obtain x where x: "loop_body start endn t = Some x"
      "\<forall>t'. x = Continue t' \<longrightarrow> (t', t) \<in> search_measure" by blast
    then show "\<exists>x. loop_body start endn t = Some x \<and> (\<forall>t'. x = Continue t' \<longrightarrow> ?I t' \<and> (t', t) \<in> search_measure)"
      using reach_step [OF t] by auto
  qed
  then obtain r where r: "while_loop start endn (init_state gr start endn) = Some r" by blast
  from while_loop_partial [OF r, where I = ?I] obtain t where
    t: "?I t" "loop_exit start endn t r"
    using reach_init reach_step by blast
  show ?thesis
  proof (cases "pq_empty (open_set t)")
    case True
    then show ?thesis using t(2) r by (auto simp: loop_exit_def)
  next
    case False
    from step [OF t(1) False] t(2) False r show ?thesis
      by (auto simp: loop_exit_def)
  qed
qed

lemma closed_graph_derived:
  assumes "grid_shape R gr0" "fst start < R" "snd start < R"
  shows "closed_graph (derive_adjacency gr0) start"
proof -
  have st: "same_static gr0 (derive_adjacency gr0)" using assms(1) by (rule derive_adjacency_static)
  have len: "length gr0 = R" and rl: "\<And>a. a < R \<Longrightarrow> length (gr0 ! a) = R"
    using assms(1) by (simp_all add: grid_shape_def)
  have "all_nodes (derive_adjacency gr0) = all_nodes gr0"
    using st len rl unfolding all_nodes_def same_static_def by (auto intro!: arg_cong [where f = concat])
  then have an: "set (all_nodes (derive_adjacency gr0)) = {p. fst p < R \<and> snd p < R}"
    using all_nodes_shape [OF assms(1)] by simp
  have "set (neighbors (node_at (derive_adjacency gr0) p)) \<subseteq> {p. fst p < R \<and> snd p < R}"
    if "fst p < R" "snd p < R" for p
    using derive_adjacency_derived [OF assms(1) that] set_derived [OF len that] by (cases p) auto
  then show ?thesis unfolding closed_graph_def an using assms(2,3) by auto
qed

text \<open>
  Claim C5: on a square grid whose adjacency has been derived, with start and end among
  its cells, the search returns: \<open>algorithm\<close> has a value, and the value is \<open>True\<close> or
  \<open>False\<close> with the final state, not an exception.
\<close>

theorem algorithm_terminates:
  assumes "grid_shape R gr0" "fst start < R" "snd start < R" "fst endn < R" "snd endn < R"
  shows "\<exists>b s. algorithm (derive_adjacency gr0) start endn = Some (Inr (b, s))"
  unfolding algorithm_def
  using closed_graph_derived [OF assms(1,2,3)] by (rule while_loop_returns)

theorem algorithm_terminates_witness:
  "grid_shape 3 example_wall
   \<and> (\<exists>b s. algorithm (derive_adjacency example_wall) (0, 1) (2, 1) = Some (Inr (b, s)))"
  using algorithm_terminates [OF example_wall_shape, of "(0, 1)" "(2, 1)"] example_wall_shape
  by simp

section \<open>The predecessor chains\<close>

lemma reconstruct_path_came_path:
  "came_path cf n ps \<Longrightarrow>
     reconstruct_path cf n w = Some (foldl (\<lambda>w c. draw (node_call make_path c w)) w ps)"
proof (induction arbitrary: w rule: came_path.induct)
  case (came_stop n)
  then show ?case by (subst reconstruct_path.simps) simp
next
  case (came_next n c ps)
  then show ?case by (subst reconstruct_path.simps) simp
qed

lemma came_path_unique: "came_path cf n ps \<Longrightarrow> came_path cf n qs \<Longrightarrow> ps = qs"
proof (induction arbitrary: qs rule: came_path.induct)
  case (came_stop n)
  then show ?case by (auto elim: came_path.cases)
next
  case (came_next n c ps)
  from came_next.prems show ?case
  proof (cases rule: came_path.cases)
    case came_stop
    then show ?thesis using came_next.hyps(1) by simp
  next
    case (came_next d rs)
    then have "d = c" using \<open>cf n = Some c\<close> by simp
    then have "ps = rs" using came_next(3) came_next.IH by simp
    then show ?thesis using came_next(1) \<open>d = c\<close> by simp
  qed
qed

lemma score_inv_chain:
  assumes inv: "score_inv gr start s"
  shows "g_score s n = Some (enat b) \<Longrightarrow>
         \<exists>ps. came_path (came_from s) n ps \<and> last (n # ps) = start \<and> distinct (n # ps)
              \<and> (\<forall>x\<in>set ps. \<exists>k. g_score s x = Some (enat k) \<and> k < b)"
proof (induction b arbitrary: n rule: less_induct)
  case (less b)
  show ?case
  proof (cases "came_from s n")
    case None
    then have "n = start" using inv less.prems unfolding score_inv_def by blast
    then show ?thesis using None by (auto intro: came_stop)
  next
    case (Some c)
    then obtain a where a: "g_score s c = Some (enat a)" "a < b"
      using score_inv_decreasing [OF inv Some] less.prems by auto
    from less.IH [OF a(2) a(1)] obtain ps where
      ps: "came_path (came_from s) c ps" "last (c # ps) = start" "distinct (c # ps)"
        "\<forall>x\<in>set ps. \<exists>k. g_score s x = Some (enat k) \<and> k < a"
      by blast
    have sm: "\<forall>x\<in>set (c # ps). \<exists>k. g_score s x = Some (enat k) \<and> k < b"
      using ps(4) a by auto
    then have "n \<notin> set (c # ps)" using less.prems by auto
    then have "distinct (n # c # ps)" using ps(3) by simp
    moreover have "came_path (came_from s) n (c # ps)" using Some ps(1) by (rule came_next)
    moreover have "last (n # c # ps) = start" using ps(2) by simp
    ultimately show ?thesis using sm by blast
  qed
qed

lemma score_inv_start:
  assumes "score_inv gr start s"
  shows "came_from s start = None"
proof (cases "came_from s start")
  case (Some c)
  then have "start \<noteq> start" using assms unfolding score_inv_def by blast
  then show ?thesis by simp
qed simp

lemma for_body_records:
  assumes "for_body endn c n t = Inr t'" "relaxes t c n"
  shows "\<exists>a. g_score t' c = Some (enat a) \<and> g_score t' n = Some (enat (a + 1))"
proof -
  from assms(2) obtain gc gn where g: "g_score t c = Some gc" "g_score t n = Some gn" "gc + 1 < gn"
    by (auto simp: relaxes_def)
  then obtain a where a: "gc = enat a" by (cases gc) auto
  have nc: "n \<noteq> c" using g by auto
  have "g_score t' = (g_score t)(n \<mapsto> enat (a + 1))"
    using for_body_Inr(4) [OF assms(1)] assms(2) g(1) a by (simp add: new_g_def one_enat_def)
  then show ?thesis using g(1) a nc by simp
qed

text \<open>
  Claim C10: in every state at the head of the search loop start has no entry in
  \<open>came_from\<close>; every recorded entry \<open>came_from[n] = c\<close> has \<open>g_score[c] < g_score[n]\<close>, both
  finite; so the chain from any recorded node runs through pairwise different nodes and
  ends at start, and \<open>reconstruct_path\<close> returns from any node.  The last part is the
  recording itself: the body of the inner loop writes \<open>came_from[n] = c\<close> exactly when it
  lowers \<open>g_score[n]\<close>, and then to \<open>g_score[c] + 1\<close>.
\<close>

theorem came_from_invariant:
  assumes "reachable gr start endn s"
  shows "came_from s start = None
         \<and> (\<forall>n c. came_from s n = Some c \<longrightarrow>
               (\<exists>a b. g_score s c = Some (enat a) \<and> g_score s n = Some (enat b) \<and> a < b))
         \<and> (\<forall>n\<in>dom (came_from s).
               \<exists>ps. came_path (came_from s) n ps \<and> last ps = start \<and> distinct (n # ps))
         \<and> (\<forall>n w. \<exists>w'. reconstruct_path (came_from s) n w = Some w')
         \<and> (\<forall>c n t t'. for_body endn c n t = Inr t' \<longrightarrow>
               came_from t' = (if relaxes t c n then (came_from t)(n \<mapsto> c) else came_from t)
               \<and> (relaxes t c n \<longrightarrow>
                    (\<exists>a. g_score t' c = Some (enat a) \<and> g_score t' n = Some (enat (a + 1)))))"
proof -
  have inv: "score_inv gr start s" using assms by (rule reachable_score_inv)
  have 1: "came_from s start = None" using inv by (rule score_inv_start)
  have 2: "\<forall>n c. came_from s n = Some c \<longrightarrow>
               (\<exists>a b. g_score s c = Some (enat a) \<and> g_score s n = Some (enat b) \<and> a < b)"
    using score_inv_decreasing [OF inv] by blast
  have 3: "\<exists>ps. came_path (came_from s) n ps \<and> last ps = start \<and> distinct (n # ps)"
    if "n \<in> dom (came_from s)" for n
  proof -
    from that obtain c where c: "came_from s n = Some c" by auto
    then obtain b where "g_score s n = Some (enat b)" using 2 by blast
    from score_inv_chain [OF inv this] obtain ps where
      ps: "came_path (came_from s) n ps" "last (n # ps) = start" "distinct (n # ps)" by blast
    have "ps \<noteq> []" using ps(1) c by (auto elim: came_path.cases)
    then show ?thesis using ps by auto
  qed
  have 4: "\<forall>n w. \<exists>w'. reconstruct_path (came_from s) n w = Some w'"
    using reconstruct_path_total [of "came_from s" "g_score s"] score_inv_decreasing [OF inv] by blast
  have 5: "came_from t' = (if relaxes t c n then (came_from t)(n \<mapsto> c) else came_from t)
           \<and> (relaxes t c n \<longrightarrow> (\<exists>a. g_score t' c = Some (enat a) \<and> g_score t' n = Some (enat (a + 1))))"
    if "for_body endn c n t = Inr t'" for c n t t'
    using for_body_Inr(3) [OF that] for_body_records [OF that] by simp
  show ?thesis using 1 2 3 4 5 by blast
qed

lemma example_state_came_from: "came_from example_state (0, 1) = Some (0, 0)"
  by code_simp

theorem came_from_invariant_witness:
  "reachable example_open (0, 0) (0, 1) example_state
   \<and> came_from example_state (0, 0) = None
   \<and> (\<exists>ps. came_path (came_from example_state) (0, 1) ps \<and> last ps = (0, 0) \<and> distinct ((0, 1) # ps))
   \<and> (\<exists>w'. reconstruct_path (came_from example_state) (0, 1) example_state = Some w')"
proof -
  have d: "(0, 1) \<in> dom (came_from example_state)" using example_state_came_from by auto
  show ?thesis
    using came_from_invariant [OF example_state_reachable] example_state_reachable d by blast
qed

section \<open>What the search does to the colours\<close>

lemma all_nodes_iff: "(p \<in> set (all_nodes g)) = (fst p < length g \<and> snd p < length (g ! fst p))"
proof (cases p)
  case (Pair a b)
  have "((a, b) \<in> set (all_nodes g)) = (\<exists>i\<in>{0..<length g}. (a, b) \<in> Pair i ` {0..<length (g ! i)})"
    by (simp add: all_nodes_def)
  also have "\<dots> = (a < length g \<and> b < length (g ! a))"
  proof
    assume "\<exists>i\<in>{0..<length g}. (a, b) \<in> Pair i ` {0..<length (g ! i)}"
    then show "a < length g \<and> b < length (g ! a)" by auto
  next
    assume h: "a < length g \<and> b < length (g ! a)"
    then have "a \<in> {0..<length g}" "(a, b) \<in> Pair a ` {0..<length (g ! a)}" by simp_all
    then show "\<exists>i\<in>{0..<length g}. (a, b) \<in> Pair i ` {0..<length (g ! i)}" by (rule bexI [rotated])
  qed
  finally show ?thesis using Pair by simp
qed

lemma apply_node_at:
  "node_at (apply_node m p g) q = (if q = p \<and> p \<in> set (all_nodes g) then m (node_at g q) else node_at g q)"
  by (cases q) (auto simp: node_at_def apply_node_nth all_nodes_iff)

lemma all_nodes_apply_node [simp]: "all_nodes (apply_node m p g) = all_nodes g"
  by (simp add: all_nodes_def)

lemma colour_ok_refl: "colour_ok gr start endn gr"
  by (simp add: colour_ok_def)

lemma colour_ok_open:
  assumes "colour_ok gr start endn g" "n \<noteq> start"
  shows "colour_ok gr start endn (apply_node make_open n g)"
  using assms unfolding colour_ok_def by (simp add: apply_node_at)

lemma colour_ok_closed:
  assumes "colour_ok gr start endn g" "c \<noteq> start" "c \<noteq> endn"
  shows "colour_ok gr start endn (apply_node make_closed c g)"
  using assms unfolding colour_ok_def by (simp add: apply_node_at)

lemma mark_inv_init: "mark_inv gr start endn (init_state gr start endn)"
  by (simp add: mark_inv_def colour_ok_refl)

lemma mark_inv_pop: "mark_inv gr start endn s \<Longrightarrow> mark_inv gr start endn (pop s m q)"
  by (simp add: mark_inv_def)

lemma mark_inv_draw: "mark_inv gr start endn s \<Longrightarrow> mark_inv gr start endn (draw s)"
  by (simp add: mark_inv_def event_ok_def)

lemma mark_inv_closed:
  assumes "mark_inv gr start endn s" "c \<noteq> start" "c \<noteq> endn"
  shows "mark_inv gr start endn (node_call make_closed c s)"
  using assms by (simp add: mark_inv_def event_ok_def colour_ok_closed)

lemma relaxes_not_start:
  assumes "score_inv gr start s" "relaxes s c n"
  shows "n \<noteq> start"
proof
  assume "n = start"
  then have "g_score s n = Some 0" using assms(1) by (simp add: score_inv_def)
  then show False using assms(2) by (auto simp: relaxes_def)
qed

lemma mark_inv_for_body:
  assumes "mark_inv gr start endn s" "score_inv gr start s" "for_body endn' c n s = Inr s'"
  shows "mark_inv gr start endn s'"
proof (cases "relaxes s c n \<and> n \<notin> open_set_hash s")
  case True
  then have ns: "n \<noteq> start" using relaxes_not_start [OF assms(2)] by blast
  have "grid s' = apply_node make_open n (grid s)" "trace s' = trace s @ [Mark n GREEN]"
    using for_body_Inr(9,10) [OF assms(3)] True by simp_all
  then show ?thesis
    using assms(1) ns by (simp add: mark_inv_def event_ok_def colour_ok_open)
next
  case False
  then have "grid s' = grid s" "trace s' = trace s"
    using for_body_Inr(9,10) [OF assms(3)] by auto
  then show ?thesis using assms(1) by (simp add: mark_inv_def)
qed

lemma mark_inv_step:
  assumes "mark_inv gr start endn s" "score_inv gr start s" "loop_body start endn s = Some (Continue s')"
  shows "mark_inv gr start endn s'"
proof -
  from assms(3) obtain m q s2 where
    g: "pq_get (open_set s) = Some (m, q)" and mh: "snd (snd m) \<in> open_set_hash s"
    and ne: "snd (snd m) \<noteq> endn"
    and f: "for_neighbors endn (snd (snd m)) (neighbors (node_at (grid s) (snd (snd m)))) (pop s m q) = Inr s2"
    and s': "s' = (if snd (snd m) \<noteq> start then node_call make_closed (snd (snd m)) (draw s2) else draw s2)"
    by (rule loop_body_Continue)
  let ?c = "snd (snd m)"
  obtain a where a: "g_score s ?c = Some (enat a)"
    using assms(2) mh unfolding score_inv_def by blast
  have nb: "neighbors (node_at (grid s) ?c) = neighbors (node_at gr ?c)"
    using assms(2) by (simp add: recoloured_node score_inv_recoloured)
  let ?P = "\<lambda>t. mark_inv gr start endn t \<and> score_inv gr start t \<and> g_score t ?c = Some (enat a)"
  have "?P s2"
    using f
  proof (rule for_neighbors_rule)
    show "?P (pop s m q)" using assms(1,2) a by (simp add: mark_inv_pop score_inv_pop)
  next
    fix n t t'
    assume "n \<in> set (neighbors (node_at (grid s) ?c))" "?P t" "for_body endn ?c n t = Inr t'"
    then show "?P t'"
      using mark_inv_for_body [of gr start endn t endn ?c n t']
        score_inv_for_body [of gr start t ?c a n endn t'] nb by simp
  qed
  then show ?thesis unfolding s' using ne by (simp add: mark_inv_draw mark_inv_closed)
qed

lemma reachable_mark_inv: "reachable gr start endn s \<Longrightarrow> mark_inv gr start endn s"
proof (induction rule: reachable.induct)
  case reach_init
  show ?case by (rule mark_inv_init)
next
  case (reach_step s s')
  then show ?case using mark_inv_step reachable_score_inv by blast
qed

section \<open>The statuses of start and end\<close>

lemma mark_path_Nil [simp]: "mark_path [] w = w"
  by (simp add: mark_path_def)

lemma mark_path_Cons [simp]: "mark_path (c # ps) w = mark_path ps (draw (node_call make_path c w))"
  by (simp add: mark_path_def)

lemma mark_path_fields [simp]:
  "count (mark_path ps w) = count w" "open_set (mark_path ps w) = open_set w"
  "came_from (mark_path ps w) = came_from w" "g_score (mark_path ps w) = g_score w"
  "f_score (mark_path ps w) = f_score w" "open_set_hash (mark_path ps w) = open_set_hash w"
  by (induction ps arbitrary: w) simp_all

lemma marked_append [simp]: "marked c (xs @ ys) = marked c xs @ marked c ys"
  by (induction c xs rule: marked.induct) simp_all

lemma drawn_append [simp]: "drawn (xs @ ys) = drawn xs @ drawn ys"
  by (induction xs rule: drawn.induct) simp_all


lemma set_marked: "set (marked c tr) = {p. Mark p c \<in> set tr}"
  by (induction c tr rule: marked.induct) auto

lemma mark_path_all_nodes [simp]: "all_nodes (grid (mark_path ps w)) = all_nodes (grid w)"
  by (induction ps arbitrary: w) simp_all

lemma mark_path_recoloured: "recoloured gr (grid w) \<Longrightarrow> recoloured gr (grid (mark_path ps w))"
  by (induction ps arbitrary: w) (simp_all add: recoloured_marks)

lemma mark_path_marked: "marked c (trace (mark_path ps w)) = marked c (trace w) @ (if c = PURPLE then ps else [])"
  by (induction ps arbitrary: w) simp_all




lemma path_coloured_mono: "path_coloured g0 ps g \<Longrightarrow> set ps \<subseteq> set qs \<Longrightarrow> path_coloured g0 qs g"
  unfolding path_coloured_def by blast



lemma algorithm_exit:
  assumes "algorithm gr start endn = Some r"
  shows "\<exists>t. reachable gr start endn t \<and> loop_exit start endn t r"
  using while_loop_partial [where I = "reachable gr start endn", OF assms [unfolded algorithm_def]]
    reach_init reach_step by blast

lemma algorithm_False:
  assumes "algorithm gr start endn = Some (Inr (False, s))"
  shows "reachable gr start endn s \<and> pq_empty (open_set s)"
proof -
  from algorithm_exit [OF assms] obtain t where
    t: "reachable gr start endn t" "loop_exit start endn t (Inr (False, s))" by blast
  show ?thesis
  proof (cases "pq_empty (open_set t)")
    case True
    then show ?thesis using t by (auto simp: loop_exit_def)
  next
    case False
    then obtain t' where "loop_body start endn t = Some (Return False t')"
      using t(2) by (auto simp: loop_exit_def)
    then show ?thesis by (rule loop_body_Return) simp
  qed
qed

lemma algorithm_True:
  assumes "algorithm gr start endn = Some (Inr (True, s))"
  shows "\<exists>t m q ps. reachable gr start endn t \<and> pq_get (open_set t) = Some (m, q) \<and> snd (snd m) = endn
           \<and> came_path (came_from t) endn ps \<and> last (endn # ps) = start \<and> distinct (endn # ps)
           \<and> (\<forall>x\<in>set ps. \<exists>k. g_score t x = Some (enat k))
           \<and> s = node_call make_end endn (mark_path ps (pop t m q))"
proof -
  from algorithm_exit [OF assms] obtain t where
    t: "reachable gr start endn t" "loop_exit start endn t (Inr (True, s))" by blast
  have ne: "\<not> pq_empty (open_set t)" using t(2) by (auto simp: loop_exit_def)
  then have "loop_body start endn t = Some (Return True s)"
    using t(2) by (auto simp: loop_exit_def)
  then obtain m q s2 where
    g: "pq_get (open_set t) = Some (m, q)" and mh: "snd (snd m) \<in> open_set_hash t"
    and me: "snd (snd m) = endn"
    and rp: "reconstruct_path (came_from t) endn (pop t m q) = Some s2"
    and s: "s = node_call make_end endn s2"
    by (rule loop_body_Return)
  have inv: "score_inv gr start t" using t(1) by (rule reachable_score_inv)
  obtain b where "g_score t endn = Some (enat b)"
    using inv mh me unfolding score_inv_def by blast
  from score_inv_chain [OF inv this] obtain ps where
    ps: "came_path (came_from t) endn ps" "last (endn # ps) = start" "distinct (endn # ps)"
      "\<forall>x\<in>set ps. \<exists>k. g_score t x = Some (enat k) \<and> k < b"
    by blast
  have "s2 = mark_path ps (pop t m q)"
    using reconstruct_path_came_path [OF ps(1), of "pop t m q"] rp by (simp add: mark_path_def)
  then show ?thesis using t(1) g me ps s by blast
qed






lemma event_ok_simps [simp]:
  "event_ok gr start endn (Draw g) = colour_ok gr start endn g"
  "event_ok gr start endn (Mark p c) = ((c = GREEN \<and> p \<noteq> start) \<or> (c = RED \<and> p \<noteq> start \<and> p \<noteq> endn))"
  by (simp_all add: event_ok_def)

lemma colour_okD:
  assumes "colour_ok gr start endn g"
  shows "color (node_at g start) = color (node_at gr start)"
    "color (node_at g endn) = color (node_at gr endn) \<or> color (node_at g endn) = GREEN"
    "color (node_at g p) = color (node_at gr p) \<or> color (node_at g p) = GREEN \<or> color (node_at g p) = RED"
  using assms unfolding colour_ok_def by blast+

lemma mark_invD:
  assumes "mark_inv gr start endn s"
  shows "colour_ok gr start endn (grid s)" "e \<in> set (trace s) \<Longrightarrow> event_ok gr start endn e"
  using assms unfolding mark_inv_def by blast+


lemma mark_inv_Mark:
  assumes "mark_inv gr start endn s" "Mark p c \<in> set (trace s)"
  shows "(c = GREEN \<and> p \<noteq> start) \<or> (c = RED \<and> p \<noteq> start \<and> p \<noteq> endn)"
  using mark_invD(2) [OF assms] by simp







lemma example_open_run: "returned (algorithm example_open (0, 0) (0, 1)) = Some True"
  by code_simp


text \<open>
  Claim C1 against the code: \<open>reconstruct_path\<close> colours the node it has just stepped to,
  so its last turn colours start.  On the 2 by 2 grid without barriers, start at
  \<open>(0, 0)\<close> and end at \<open>(0, 1)\<close>, the search succeeds, the only node marked Path is start,
  and start is left with the colour of a Path node.
\<close>

theorem reconstruct_path_marks_start:
  "is_start (node_at example_open (0, 0))
   \<and> returned (algorithm example_open (0, 0) (0, 1)) = Some True
   \<and> marked PURPLE (final_trace (algorithm example_open (0, 0) (0, 1))) = [(0, 0)]
   \<and> color (node_at (final_grid (algorithm example_open (0, 0) (0, 1))) (0, 0)) = PURPLE"
  by code_simp

section \<open>Unreachable goals\<close>

lemma score_inv_edges:
  assumes inv: "score_inv gr start s"
  shows "g_score s n = Some (enat b) \<Longrightarrow> (start, n) \<in> (edges gr)\<^sup>*"
proof (induction b arbitrary: n rule: less_induct)
  case (less b)
  show ?case
  proof (cases "came_from s n")
    case None
    then have "n = start" using inv less.prems unfolding score_inv_def by blast
    then show ?thesis by simp
  next
    case (Some c)
    then obtain a where a: "g_score s c = Some (enat a)" "a < b"
      using score_inv_decreasing [OF inv Some] less.prems by auto
    have "n \<in> set (neighbors (node_at gr c))"
      using inv Some unfolding score_inv_def by blast
    then have "(c, n) \<in> edges gr" by (simp add: edges_def)
    then show ?thesis using less.IH [OF a(2) a(1)] by simp
  qed
qed

lemma edges_derived:
  assumes "grid_shape R gr0" "fst c < R" "snd c < R" "(c, n) \<in> edges (derive_adjacency gr0)"
  shows "(c, n) \<in> free_step R gr0"
proof -
  have len: "length gr0 = R" using assms(1) by (simp add: grid_shape_def)
  have "n \<in> set (derived gr0 c)"
    using assms(4) derive_adjacency_derived [OF assms(1,2,3)] by (simp add: edges_def)
  then show ?thesis
    using set_derived [OF len assms(2,3)] assms(2,3) by (simp add: free_step_def is_barrier_def)
qed

lemma free_step_derived:
  assumes "grid_shape R gr0" "(c, n) \<in> free_step R gr0"
  shows "(c, n) \<in> edges (derive_adjacency gr0)"
proof -
  have len: "length gr0 = R" using assms(1) by (simp add: grid_shape_def)
  have c: "fst c < R" "snd c < R" using assms(2) by (simp_all add: free_step_def)
  have "n \<in> set (derived gr0 c)"
    using set_derived [OF len c] assms(2) by (simp add: free_step_def is_barrier_def)
  then show ?thesis
    using derive_adjacency_derived [OF assms(1) c] by (simp add: edges_def)
qed

lemma edges_rtrancl_derived:
  assumes "grid_shape R gr0" "fst start < R" "snd start < R"
    and "(start, n) \<in> (edges (derive_adjacency gr0))\<^sup>*"
  shows "(start, n) \<in> (free_step R gr0)\<^sup>* \<and> fst n < R \<and> snd n < R"
  using assms(4)
proof (induction rule: rtrancl_induct)
  case base
  then show ?case using assms(2,3) by simp
next
  case (step y z)
  then have yz: "(y, z) \<in> free_step R gr0" using edges_derived [OF assms(1)] by blast
  then have "fst z < R \<and> snd z < R" by (simp add: free_step_def)
  moreover have "(start, z) \<in> (free_step R gr0)\<^sup>*"
    using step.IH yz by (blast intro: rtrancl_into_rtrancl)
  ultimately show ?case by simp
qed

lemma algorithm_True_connected:
  assumes "algorithm gr start endn = Some (Inr (True, s))"
  shows "(start, endn) \<in> (edges gr)\<^sup>*"
proof -
  from algorithm_True [OF assms] obtain t m q where
    r: "reachable gr start endn t" and g: "pq_get (open_set t) = Some (m, q)"
    and me: "snd (snd m) = endn" by blast
  have inv: "score_inv gr start t" using r by (rule reachable_score_inv)
  have "m \<in> set (open_set t)" using pq_get_Some [OF g] by simp
  then have "endn \<in> open_set_hash t" using reachable_queue_inv [OF r] me by (auto simp: queue_inv_def)
  then obtain b where "g_score t endn = Some (enat b)" using inv unfolding score_inv_def by blast
  then show ?thesis by (rule score_inv_edges [OF inv])
qed

lemma algorithm_False_marks:
  assumes "algorithm gr start endn = Some (Inr (False, s))"
  shows "pq_empty (open_set s)" "marked PURPLE (trace s) = []"
    "color (node_at (grid s) p) = PURPLE \<Longrightarrow> color (node_at gr p) = PURPLE"
proof -
  from algorithm_False [OF assms] have r: "reachable gr start endn s" and e: "pq_empty (open_set s)"
    by simp_all
  show "pq_empty (open_set s)" by (rule e)
  have mi: "mark_inv gr start endn s" using r by (rule reachable_mark_inv)
  have "set (marked PURPLE (trace s)) = {}"
    using mark_inv_Mark [OF mi] by (auto simp: set_marked)
  then show "marked PURPLE (trace s) = []" by simp
  show "color (node_at gr p) = PURPLE" if "color (node_at (grid s) p) = PURPLE"
    using colour_okD(3) [OF mark_invD(1) [OF mi], of p] that by auto
qed

lemma derive_adjacency_color:
  assumes "grid_shape R gr0" "i < R" "j < R"
  shows "color (node_at (derive_adjacency gr0) (i, j)) = color (node_at gr0 (i, j))"
proof -
  have len: "length gr0 = R" and rl: "\<And>a. a < R \<Longrightarrow> length (gr0 ! a) = R"
    using assms(1) by (simp_all add: grid_shape_def)
  show ?thesis
    using derive_adjacency_static [OF assms(1)] len rl assms(2,3)
    by (simp add: same_static_def node_at_def)
qed

lemma wall_separates:
  assumes "is_barrier (node_at gr (1, 0))" "is_barrier (node_at gr (1, 1))" "is_barrier (node_at gr (1, 2))"
  shows "((0, 1), (2, 1)) \<notin> (free_step 3 gr)\<^sup>*"
proof -
  have row1: "is_barrier (node_at gr (1, j))" if "j < 3" for j
  proof -
    from that have "j = 0 \<or> j = 1 \<or> j = 2" by auto
    then show ?thesis using assms by auto
  qed
  have "fst q = 0" if "((0, 1), q) \<in> (free_step 3 gr)\<^sup>*" for q
    using that
  proof (induction rule: rtrancl_induct)
    case base
    show ?case by simp
  next
    case (step y z)
    obtain a b where z: "z = (a, b)" by (cases z)
    have "adjacent y z" "snd z < 3" "\<not> is_barrier (node_at gr z)"
      using step.hyps(2) by (simp_all add: free_step_def)
    then have "a = 0 \<or> (a = 1 \<and> b < 3 \<and> \<not> is_barrier (node_at gr (1, b)))"
      using step.IH z by (auto simp: adjacent_def)
    then show ?case using row1 z by auto
  qed
  then show ?thesis by fastforce
qed

text \<open>
  Claim C4, as stated, fails on the code: a cell that already has the colour of a Path
  node when the search is called keeps it.  In \<open>example_stale\<close> the wall of barriers
  separates start \<open>(0, 1)\<close> from end \<open>(2, 1)\<close> (every step from the top row stays in the top
  row); the search returns \<open>False\<close> and cell \<open>(2, 0)\<close> still has status Path.
\<close>

theorem stale_path_counterexample:
  "((0, 1), (2, 1)) \<notin> (free_step 3 example_stale)\<^sup>*
   \<and> returned (algorithm (derive_adjacency example_stale) (0, 1) (2, 1)) = Some False
   \<and> color (node_at (final_grid (algorithm (derive_adjacency example_stale) (0, 1) (2, 1))) (2, 0)) = PURPLE"
proof -
  have "is_barrier (node_at example_stale (1, 0))" "is_barrier (node_at example_stale (1, 1))"
    "is_barrier (node_at example_stale (1, 2))"
    by code_simp+
  then have "((0, 1), (2, 1)) \<notin> (free_step 3 example_stale)\<^sup>*"
    by (rule wall_separates)
  moreover have "returned (algorithm (derive_adjacency example_stale) (0, 1) (2, 1)) = Some False"
    by code_simp
  moreover have "color (node_at (final_grid (algorithm (derive_adjacency example_stale) (0, 1) (2, 1))) (2, 0)) = PURPLE"
    by code_simp
  ultimately show ?thesis by blast
qed

text \<open>
  Claim C4, amended: on a square grid whose adjacency has been derived, with start and
  end among its cells and no sequence of axis-aligned steps onto cells that are not
  barriers leading from start to end, the search empties the queue and returns \<open>False\<close>;
  it marks no cell Path, so a cell has status Path afterwards only if it had that status
  when the search was called.
\<close>

theorem no_path_failure:
  assumes "grid_shape R gr0" "fst start < R" "snd start < R" "fst endn < R" "snd endn < R"
    and "(start, endn) \<notin> (free_step R gr0)\<^sup>*"
  shows "\<exists>s. algorithm (derive_adjacency gr0) start endn = Some (Inr (False, s))
             \<and> pq_empty (open_set s) \<and> marked PURPLE (trace s) = []
             \<and> (\<forall>i<R. \<forall>j<R. color (node_at (grid s) (i, j)) = PURPLE
                    \<longrightarrow> color (node_at gr0 (i, j)) = PURPLE)"
proof -
  let ?gr = "derive_adjacency gr0"
  from while_loop_returns [OF closed_graph_derived [OF assms(1,2,3)], of endn]
  obtain b s where bs: "algorithm ?gr start endn = Some (Inr (b, s))"
    unfolding algorithm_def by blast
  have "\<not> b"
  proof
    assume b
    then have "algorithm ?gr start endn = Some (Inr (True, s))" using bs by simp
    then have "(start, endn) \<in> (edges ?gr)\<^sup>*" by (rule algorithm_True_connected)
    then show False using edges_rtrancl_derived [OF assms(1,2,3)] assms(6) by blast
  qed
  then have f: "algorithm ?gr start endn = Some (Inr (False, s))" using bs by simp
  have "color (node_at gr0 (i, j)) = PURPLE"
    if "i < R" "j < R" "color (node_at (grid s) (i, j)) = PURPLE" for i j
    using algorithm_False_marks(3) [OF f that(3)] derive_adjacency_color [OF assms(1) that(1,2)] by simp
  then show ?thesis using f algorithm_False_marks(1,2) [OF f] by blast
qed

theorem no_path_failure_witness:
  "grid_shape 3 example_wall
   \<and> ((0, 1), (2, 1)) \<notin> (free_step 3 example_wall)\<^sup>*
   \<and> (\<exists>s. algorithm (derive_adjacency example_wall) (0, 1) (2, 1) = Some (Inr (False, s))
          \<and> pq_empty (open_set s) \<and> marked PURPLE (trace s) = [])"
proof -
  have "is_barrier (node_at example_wall (1, 0))" "is_barrier (node_at example_wall (1, 1))"
    "is_barrier (node_at example_wall (1, 2))"
    by code_simp+
  then have w: "((0, 1), (2, 1)) \<notin> (free_step 3 example_wall)\<^sup>*"
    by (rule wall_separates)
  show ?thesis
    using no_path_failure [OF example_wall_shape _ _ _ _ w] example_wall_shape w by simp blast
qed

section \<open>Keys and scores of the queue\<close>


















section \<open>The statuses of end\<close>








section \<open>Two searches on the same graph\<close>

lemma marks_append [simp]: "marks (xs @ ys) = marks xs @ marks ys"
  by (induction xs rule: marks.induct) simp_all

lemma marked_marks: "marked c tr = map fst (filter (\<lambda>x. snd x = c) (marks tr))"
  by (induction c tr rule: marked.induct) simp_all

lemma mark_path_marks: "marks (trace (mark_path ps w)) = marks (trace w) @ map (\<lambda>c. (c, PURPLE)) ps"
  by (induction ps arbitrary: w) simp_all

lemma sim_for_body:
  assumes sm: "sim s1 s2" and sg: "same_graph gr1 gr2"
    and r1: "recoloured gr1 (grid s1)" and r2: "recoloured gr2 (grid s2)"
    and n: "n \<in> set (all_nodes gr1)" and e: "endn \<in> set (all_nodes gr1)"
    and f1: "for_body endn c n s1 = Inr s1'"
  shows "\<exists>s2'. for_body endn c n s2 = Inr s2' \<and> sim s1' s2'
           \<and> recoloured gr1 (grid s1') \<and> recoloured gr2 (grid s2')"
proof -
  have g: "g_score s2 = g_score s1" using sm by (simp add: sim_def)
  have "c \<in> dom (g_score s2)" "n \<in> dom (g_score s2)"
    using for_body_Inr(1,2) [OF f1] g by simp_all
  from for_body_defined [OF this] obtain s2' where f2: "for_body endn c n s2 = Inr s2'" by blast
  have rl: "relaxes s2 c n = relaxes s1 c n" using g by (simp add: relaxes_def)
  have ng: "new_g s2 c = new_g s1 c" using g by (simp add: new_g_def)
  have gp: "get_pos (node_at (grid s1) p) = get_pos (node_at (grid s2) p)" if "p \<in> set (all_nodes gr1)" for p
    using recoloured_node(2) [OF r1, of p] recoloured_node(2) [OF r2, of p] sg that
    by (simp add: same_graph_def)
  have nf: "new_f endn s2 c n = new_f endn s1 c n"
    using gp [OF n] gp [OF e] ng by (simp add: new_f_def)
  have h: "open_set_hash s2 = open_set_hash s1" using sm by (simp add: sim_def)
  have "sim s1' s2'"
    unfolding sim_def for_body_Inr(3-8,10) [OF f1] for_body_Inr(3-8,10) [OF f2] rl ng nf h
    using sm by (simp add: sim_def)
  moreover have "recoloured gr1 (grid s1')"
    using for_body_Inr(9) [OF f1] r1 by (auto intro: recoloured_marks)
  moreover have "recoloured gr2 (grid s2')"
    using for_body_Inr(9) [OF f2] r2 by (auto intro: recoloured_marks)
  ultimately show ?thesis using f2 by blast
qed

lemma sim_for_neighbors:
  assumes sg: "same_graph gr1 gr2" and e: "endn \<in> set (all_nodes gr1)"
  shows "sim s1 s2 \<Longrightarrow> recoloured gr1 (grid s1) \<Longrightarrow> recoloured gr2 (grid s2)
         \<Longrightarrow> set ns \<subseteq> set (all_nodes gr1) \<Longrightarrow> for_neighbors endn c ns s1 = Inr s1'
         \<Longrightarrow> \<exists>s2'. for_neighbors endn c ns s2 = Inr s2' \<and> sim s1' s2'
               \<and> recoloured gr1 (grid s1') \<and> recoloured gr2 (grid s2')"
proof (induction ns arbitrary: s1 s2)
  case Nil
  then show ?case by simp
next
  case (Cons n ns)
  from Cons.prems(5) obtain t1 where
    t1: "for_body endn c n s1 = Inr t1" "for_neighbors endn c ns t1 = Inr s1'"
    by (auto split: sum.splits)
  have "n \<in> set (all_nodes gr1)" using Cons.prems(4) by simp
  from sim_for_body [OF Cons.prems(1) sg Cons.prems(2,3) this e t1(1)] obtain t2 where
    t2: "for_body endn c n s2 = Inr t2" "sim t1 t2" "recoloured gr1 (grid t1)" "recoloured gr2 (grid t2)"
    by blast
  have "set ns \<subseteq> set (all_nodes gr1)" using Cons.prems(4) by simp
  from Cons.IH [OF t2(2,3,4) this t1(2)] show ?case using t2(1) by simp
qed

lemma sim_pop: "sim s1 s2 \<Longrightarrow> sim (pop s1 m q) (pop s2 m q)"
  by (simp add: sim_def)

lemma score_inv_in_nodes:
  assumes "score_inv gr start s" "closed_graph gr start" "c \<in> open_set_hash s"
  shows "c \<in> set (all_nodes gr)" "set (neighbors (node_at gr c)) \<subseteq> set (all_nodes gr)"
proof -
  obtain a where "g_score s c = Some (enat a)" using assms(1,3) unfolding score_inv_def by blast
  then have "c \<in> dom (g_score s)" by auto
  then show "c \<in> set (all_nodes gr)"
    using score_inv_dom [OF assms(1)] assms(2) by (auto simp: closed_graph_def)
  then show "set (neighbors (node_at gr c)) \<subseteq> set (all_nodes gr)"
    using assms(2) by (simp add: closed_graph_def)
qed

lemma sim_loop_body_Continue:
  assumes r1: "reachable gr1 start endn s1" and r2: "reachable gr2 start endn s2"
    and sm: "sim s1 s2" and sg: "same_graph gr1 gr2" and cl: "closed_graph gr1 start"
    and e: "endn \<in> set (all_nodes gr1)"
    and lb: "loop_body start endn s1 = Some (Continue t1)"
  shows "\<exists>t2. loop_body start endn s2 = Some (Continue t2) \<and> sim t1 t2"
proof -
  from lb obtain m q u1 where
    g: "pq_get (open_set s1) = Some (m, q)" and mh: "snd (snd m) \<in> open_set_hash s1"
    and ne: "snd (snd m) \<noteq> endn"
    and f: "for_neighbors endn (snd (snd m)) (neighbors (node_at (grid s1) (snd (snd m)))) (pop s1 m q) = Inr u1"
    and t1: "t1 = (if snd (snd m) \<noteq> start then node_call make_closed (snd (snd m)) (draw u1) else draw u1)"
    by (rule loop_body_Continue)
  let ?c = "snd (snd m)"
  have i1: "score_inv gr1 start s1" using r1 by (rule reachable_score_inv)
  have i2: "score_inv gr2 start s2" using r2 by (rule reachable_score_inv)
  have cn: "?c \<in> set (all_nodes gr1)" "set (neighbors (node_at gr1 ?c)) \<subseteq> set (all_nodes gr1)"
    using score_inv_in_nodes [OF i1 cl mh] by simp_all
  have n1: "neighbors (node_at (grid s1) ?c) = neighbors (node_at gr1 ?c)"
    using i1 by (simp add: recoloured_node score_inv_recoloured)
  have n2: "neighbors (node_at (grid s2) ?c) = neighbors (node_at gr1 ?c)"
    using i2 sg cn(1) by (simp add: recoloured_node score_inv_recoloured same_graph_def)
  have rc1: "recoloured gr1 (grid (pop s1 m q))" using i1 by (simp add: score_inv_recoloured)
  have rc2: "recoloured gr2 (grid (pop s2 m q))" using i2 by (simp add: score_inv_recoloured)
  from sim_for_neighbors [OF sg e sim_pop [OF sm] rc1 rc2 _ f [unfolded n1]] cn(2)
  obtain u2 where u2: "for_neighbors endn ?c (neighbors (node_at gr1 ?c)) (pop s2 m q) = Inr u2" "sim u1 u2"
    by blast
  let ?t2 = "if ?c \<noteq> start then node_call make_closed ?c (draw u2) else draw u2"
  have os: "open_set s2 = open_set s1" "open_set_hash s2 = open_set_hash s1"
    using sm by (simp_all add: sim_def)
  have u2': "for_neighbors endn ?c (neighbors (node_at (grid s2) ?c)) (pop s2 m q) = Inr u2"
    using u2(1) n2 by simp
  have "loop_body start endn s2 = Some (Continue ?t2)"
    unfolding loop_body_cases os using g mh ne u2' by simp
  moreover have "sim t1 ?t2" unfolding t1 using u2(2) by (simp add: sim_def)
  ultimately show ?thesis by blast
qed

lemma sim_loop_body_Return:
  assumes r1: "reachable gr1 start endn s1" and sm: "sim s1 s2"
    and lb: "loop_body start endn s1 = Some (Return b t1)"
  shows "\<exists>t2. loop_body start endn s2 = Some (Return b t2) \<and> marks (trace t1) = marks (trace t2)"
proof -
  from lb obtain m q u1 where
    g: "pq_get (open_set s1) = Some (m, q)" and mh: "snd (snd m) \<in> open_set_hash s1"
    and me: "snd (snd m) = endn"
    and rp: "reconstruct_path (came_from s1) endn (pop s1 m q) = Some u1"
    and t1: "t1 = node_call make_end endn u1" and b: b
    by (rule loop_body_Return)
  have i1: "score_inv gr1 start s1" using r1 by (rule reachable_score_inv)
  obtain k where "g_score s1 endn = Some (enat k)"
    using i1 mh me unfolding score_inv_def by blast
  from score_inv_chain [OF i1 this] obtain ps where ps: "came_path (came_from s1) endn ps" by blast
  have u1: "u1 = mark_path ps (pop s1 m q)"
    using reconstruct_path_came_path [OF ps, of "pop s1 m q"] rp by (simp add: mark_path_def)
  have os: "open_set s2 = open_set s1" "open_set_hash s2 = open_set_hash s1" "came_from s2 = came_from s1"
    using sm by (simp_all add: sim_def)
  let ?t2 = "node_call make_end endn (mark_path ps (pop s2 m q))"
  have "reconstruct_path (came_from s1) endn (pop s2 m q) = Some (mark_path ps (pop s2 m q))"
    using reconstruct_path_came_path [OF ps, of "pop s2 m q"] by (simp add: mark_path_def)
  then have "loop_body start endn s2 = Some (Return b ?t2)"
    unfolding loop_body_cases os using g mh me b by simp
  moreover have "marks (trace t1) = marks (trace ?t2)"
    unfolding t1 u1 using sm by (simp add: mark_path_marks sim_def)
  ultimately show ?thesis by blast
qed

lemma while_loop_sim:
  assumes sg: "same_graph gr1 gr2" and cl: "closed_graph gr1 start" and e: "endn \<in> set (all_nodes gr1)"
  shows "reachable gr1 start endn s1 \<Longrightarrow> reachable gr2 start endn s2 \<Longrightarrow> sim s1 s2
         \<Longrightarrow> \<exists>b t1 t2. while_loop start endn s1 = Some (Inr (b, t1))
               \<and> while_loop start endn s2 = Some (Inr (b, t2)) \<and> marks (trace t1) = marks (trace t2)"
proof (induction s1 arbitrary: s2 rule: wf_induct_rule [OF wf_search_measure])
  case (1 s1)
  have os: "open_set s2 = open_set s1" using "1.prems"(3) by (simp add: sim_def)
  show ?case
  proof (cases "pq_empty (open_set s1)")
    case True
    have "while_loop start endn s1 = Some (Inr (False, s1))"
      using True by (subst while_loop.simps) simp
    moreover have "while_loop start endn s2 = Some (Inr (False, s2))"
      using True os by (subst while_loop.simps) simp
    ultimately show ?thesis using "1.prems"(3) by (auto simp: sim_def)
  next
    case False
    from loop_body_progress [OF reachable_score_inv [OF "1.prems"(1)] reachable_queue_inv [OF "1.prems"(1)] cl False, of endn]
    obtain x where x: "loop_body start endn s1 = Some x" "\<forall>e. x \<noteq> Raise e"
      "\<forall>t. x = Continue t \<longrightarrow> (t, s1) \<in> search_measure" by blast
    show ?thesis
    proof (cases x)
      case (Raise err)
      then show ?thesis using x(2) by simp
    next
      case (Return b t1)
      from sim_loop_body_Return [OF "1.prems"(1,3) x(1) [unfolded Return]] obtain t2 where
        t2: "loop_body start endn s2 = Some (Return b t2)" "marks (trace t1) = marks (trace t2)" by blast
      have "while_loop start endn s1 = Some (Inr (b, t1))"
        using False x(1) Return by (subst while_loop.simps) simp
      moreover have "while_loop start endn s2 = Some (Inr (b, t2))"
        using False os t2(1) by (subst while_loop.simps) simp
      ultimately show ?thesis using t2(2) by blast
    next
      case (Continue t1)
      from sim_loop_body_Continue [OF "1.prems"(1,2,3) sg cl e x(1) [unfolded Continue]] obtain t2 where
        t2: "loop_body start endn s2 = Some (Continue t2)" "sim t1 t2" by blast
      have m: "(t1, s1) \<in> search_measure" using x(3) Continue by simp
      have ne2: "\<not> pq_empty (open_set s2)" using False os by simp
      have rr: "reachable gr1 start endn t1" "reachable gr2 start endn t2"
        using reach_step [OF "1.prems"(1) False x(1) [unfolded Continue]]
          reach_step [OF "1.prems"(2) ne2 t2(1)] by simp_all
      from "1.IH" [OF m rr t2(2)] obtain b u1 u2 where
        u: "while_loop start endn t1 = Some (Inr (b, u1))" "while_loop start endn t2 = Some (Inr (b, u2))"
          "marks (trace u1) = marks (trace u2)" by blast
      have "while_loop start endn s1 = Some (Inr (b, u1))"
        using False x(1) Continue u(1) by (subst while_loop.simps) simp
      moreover have "while_loop start endn s2 = Some (Inr (b, u2))"
        using ne2 t2(1) u(2) by (subst while_loop.simps) simp
      ultimately show ?thesis using u(3) by blast
    qed
  qed
qed

lemma derived_barriers:
  assumes l1: "length gr1 = R" and l2: "length gr2 = R" and i: "i < R" and j: "j < R"
    and b: "\<And>a b. a < R \<Longrightarrow> b < R \<Longrightarrow> (color (gr1 ! a ! b) = BLACK) = (color (gr2 ! a ! b) = BLACK)"
  shows "derived gr1 (i, j) = derived gr2 (i, j)"
proof -
  have p1: "(if i + 1 < R \<and> color (gr1 ! (i + 1) ! j) \<noteq> BLACK then [(i + 1, j)] else [])
          = (if i + 1 < R \<and> color (gr2 ! (i + 1) ! j) \<noteq> BLACK then [(i + 1, j)] else [])"
    using b [of "i + 1" j] j by auto
  have p2: "(if 0 < i \<and> color (gr1 ! (i - 1) ! j) \<noteq> BLACK then [(i - 1, j)] else [])
          = (if 0 < i \<and> color (gr2 ! (i - 1) ! j) \<noteq> BLACK then [(i - 1, j)] else [])"
    using b [of "i - 1" j] i j by auto
  have p3: "(if j + 1 < R \<and> color (gr1 ! i ! (j + 1)) \<noteq> BLACK then [(i, j + 1)] else [])
          = (if j + 1 < R \<and> color (gr2 ! i ! (j + 1)) \<noteq> BLACK then [(i, j + 1)] else [])"
    using b [of i "j + 1"] i by auto
  have p4: "(if 0 < j \<and> color (gr1 ! i ! (j - 1)) \<noteq> BLACK then [(i, j - 1)] else [])
          = (if 0 < j \<and> color (gr2 ! i ! (j - 1)) \<noteq> BLACK then [(i, j - 1)] else [])"
    using b [of i "j - 1"] i j by auto
  show ?thesis
    unfolding derived_def fst_conv snd_conv l1 l2 p1 p2 p3 p4 ..
qed

lemma derive_adjacency_all_nodes:
  assumes "grid_shape R gr0"
  shows "set (all_nodes (derive_adjacency gr0)) = {p. fst p < R \<and> snd p < R}"
    "all_nodes (derive_adjacency gr0) = all_nodes gr0"
proof -
  have st: "same_static gr0 (derive_adjacency gr0)" using assms by (rule derive_adjacency_static)
  have len: "length gr0 = R" and rl: "\<And>a. a < R \<Longrightarrow> length (gr0 ! a) = R"
    using assms by (simp_all add: grid_shape_def)
  show "all_nodes (derive_adjacency gr0) = all_nodes gr0"
    using st len rl unfolding all_nodes_def same_static_def by (auto intro!: arg_cong [where f = concat])
  then show "set (all_nodes (derive_adjacency gr0)) = {p. fst p < R \<and> snd p < R}"
    using all_nodes_shape [OF assms] by simp
qed

lemma derive_adjacency_get_pos:
  assumes "grid_shape R gr0" "i < R" "j < R"
  shows "get_pos (node_at (derive_adjacency gr0) (i, j)) = (i, j)"
proof -
  have len: "length gr0 = R" and rl: "\<And>a. a < R \<Longrightarrow> length (gr0 ! a) = R"
    using assms(1) by (simp_all add: grid_shape_def)
  have "row (derive_adjacency gr0 ! i ! j) = row (gr0 ! i ! j)" "col (derive_adjacency gr0 ! i ! j) = col (gr0 ! i ! j)"
    using derive_adjacency_static [OF assms(1)] len rl assms(2,3) by (simp_all add: same_static_def)
  then show ?thesis using assms by (simp add: get_pos_def node_at_def grid_shape_def)
qed

lemma all_nodes_same_shape:
  assumes "grid_shape R gr1" "grid_shape R gr2"
  shows "all_nodes gr1 = all_nodes gr2"
proof -
  have "length gr1 = R" "length gr2 = R" "\<And>a. a < R \<Longrightarrow> length (gr1 ! a) = R"
    "\<And>a. a < R \<Longrightarrow> length (gr2 ! a) = R"
    using assms by (simp_all add: grid_shape_def)
  then show ?thesis unfolding all_nodes_def by (auto intro!: arg_cong [where f = concat])
qed

lemma same_graph_derived:
  assumes s1: "grid_shape R gr1" and s2: "grid_shape R gr2"
    and b: "\<forall>i<R. \<forall>j<R. is_barrier (node_at gr1 (i, j)) = is_barrier (node_at gr2 (i, j))"
  shows "same_graph (derive_adjacency gr1) (derive_adjacency gr2)"
proof -
  have l: "length gr1 = R" "length gr2 = R" using s1 s2 by (simp_all add: grid_shape_def)
  have an: "all_nodes (derive_adjacency gr1) = all_nodes (derive_adjacency gr2)"
    using derive_adjacency_all_nodes(2) [OF s1] derive_adjacency_all_nodes(2) [OF s2]
      all_nodes_same_shape [OF s1 s2] by simp
  have bb: "(color (gr1 ! a ! c) = BLACK) = (color (gr2 ! a ! c) = BLACK)" if "a < R" "c < R" for a c
    using b that by (simp add: is_barrier_def node_at_def)
  have "neighbors (node_at (derive_adjacency gr1) p) = neighbors (node_at (derive_adjacency gr2) p)
        \<and> get_pos (node_at (derive_adjacency gr1) p) = get_pos (node_at (derive_adjacency gr2) p)"
    if "p \<in> set (all_nodes (derive_adjacency gr1))" for p
  proof -
    obtain i j where p: "p = (i, j)" by (cases p)
    have ij: "i < R" "j < R" using that derive_adjacency_all_nodes(1) [OF s1] p by auto
    show ?thesis
      unfolding p
      using derive_adjacency_derived [OF s1 ij] derive_adjacency_derived [OF s2 ij]
        derived_barriers [OF l ij bb] derive_adjacency_get_pos [OF s1 ij]
        derive_adjacency_get_pos [OF s2 ij] by simp
  qed
  then show ?thesis unfolding same_graph_def using an by blast
qed

lemma sim_init:
  assumes "same_graph gr1 gr2" "start \<in> set (all_nodes gr1)" "endn \<in> set (all_nodes gr1)"
  shows "sim (init_state gr1 start endn) (init_state gr2 start endn)"
  using assms by (simp add: sim_def init_state_def same_graph_def)

lemma algorithm_sim:
  assumes "same_graph gr1 gr2" "closed_graph gr1 start" "endn \<in> set (all_nodes gr1)"
  shows "\<exists>b t1 t2. algorithm gr1 start endn = Some (Inr (b, t1))
               \<and> algorithm gr2 start endn = Some (Inr (b, t2)) \<and> marks (trace t1) = marks (trace t2)"
proof -
  have "start \<in> set (all_nodes gr1)" using assms(2) by (simp add: closed_graph_def)
  then have "sim (init_state gr1 start endn) (init_state gr2 start endn)"
    using assms(1,3) by (intro sim_init)
  then show ?thesis
    unfolding algorithm_def using reach_init reach_init
    by (intro while_loop_sim [OF assms])
qed

text \<open>
  Claim C6: two searches on square grids of the same size with the same barriers (whatever
  the other statuses of their cells), adjacency derived, from the same start to the same
  end, both return, with the same answer, and make the same status assignments in the same
  order: the same cells are marked Open, Closed and Path, in the same sequence.  The cells
  marked Path, in order, are the reconstructed path.
\<close>

theorem search_deterministic:
  assumes "grid_shape R gr1" "grid_shape R gr2"
    and "\<forall>i<R. \<forall>j<R. is_barrier (node_at gr1 (i, j)) = is_barrier (node_at gr2 (i, j))"
    and "fst start < R" "snd start < R" "fst endn < R" "snd endn < R"
  shows "\<exists>b t1 t2. algorithm (derive_adjacency gr1) start endn = Some (Inr (b, t1))
           \<and> algorithm (derive_adjacency gr2) start endn = Some (Inr (b, t2))
           \<and> marks (trace t1) = marks (trace t2)
           \<and> filter (\<lambda>x. snd x = GREEN \<or> snd x = RED) (marks (trace t1))
             = filter (\<lambda>x. snd x = GREEN \<or> snd x = RED) (marks (trace t2))
           \<and> marked GREEN (trace t1) = marked GREEN (trace t2)
           \<and> marked RED (trace t1) = marked RED (trace t2)
           \<and> marked PURPLE (trace t1) = marked PURPLE (trace t2)"
proof -
  have sg: "same_graph (derive_adjacency gr1) (derive_adjacency gr2)"
    using assms(1,2,3) by (rule same_graph_derived)
  have cl: "closed_graph (derive_adjacency gr1) start"
    using assms(1,4,5) by (rule closed_graph_derived)
  have e: "endn \<in> set (all_nodes (derive_adjacency gr1))"
    using derive_adjacency_all_nodes(1) [OF assms(1)] assms(6,7) by simp
  from algorithm_sim [OF sg cl e] obtain b t1 t2 where
    r: "algorithm (derive_adjacency gr1) start endn = Some (Inr (b, t1))"
      "algorithm (derive_adjacency gr2) start endn = Some (Inr (b, t2))"
      "marks (trace t1) = marks (trace t2)" by blast
  show ?thesis using r by (auto simp: marked_marks)
qed

theorem search_deterministic_witness:
  "grid_shape 2 (projr (make_grid 2 500))
   \<and> grid_shape 2 (apply_node make_end (0, 1) (apply_node make_start (0, 0) (projr (make_grid 2 500))))
   \<and> returned (algorithm (derive_adjacency (projr (make_grid 2 500))) (0, 0) (0, 1)) = Some True
   \<and> returned (algorithm example_open (0, 0) (0, 1)) = Some True
   \<and> marks (final_trace (algorithm (derive_adjacency (projr (make_grid 2 500))) (0, 0) (0, 1)))
     = marks (final_trace (algorithm example_open (0, 0) (0, 1)))
   \<and> marked PURPLE (final_trace (algorithm (derive_adjacency (projr (make_grid 2 500))) (0, 0) (0, 1)))
     = marked PURPLE (final_trace (algorithm example_open (0, 0) (0, 1)))"
proof -
  let ?g1 = "projr (make_grid 2 500)"
  let ?g2 = "apply_node make_end (0, 1) (apply_node make_start (0, 0) (projr (make_grid 2 500)))"
  have s1: "grid_shape 2 ?g1" by (intro make_grid_shape [of 2 500]) (simp add: make_grid_def)
  have s2: "grid_shape 2 ?g2" by (intro grid_shape_apply_node s1) simp_all
  have b: "\<forall>i<2. \<forall>j<2. is_barrier (node_at ?g1 (i, j)) = is_barrier (node_at ?g2 (i, j))"
  proof (intro allI impI)
    fix i j :: nat assume "i < 2" "j < 2"
    then have "(i = 0 \<or> i = 1) \<and> (j = 0 \<or> j = 1)" by auto
    moreover have "is_barrier (node_at ?g1 (0, 0)) = is_barrier (node_at ?g2 (0, 0))"
      "is_barrier (node_at ?g1 (0, 1)) = is_barrier (node_at ?g2 (0, 1))"
      "is_barrier (node_at ?g1 (1, 0)) = is_barrier (node_at ?g2 (1, 0))"
      "is_barrier (node_at ?g1 (1, 1)) = is_barrier (node_at ?g2 (1, 1))"
      by code_simp+
    ultimately show "is_barrier (node_at ?g1 (i, j)) = is_barrier (node_at ?g2 (i, j))" by auto
  qed
  from search_deterministic [OF s1 s2 b, of "(0, 0)" "(0, 1)"] obtain c t1 t2 where
    r: "algorithm (derive_adjacency ?g1) (0, 0) (0, 1) = Some (Inr (c, t1))"
      "algorithm example_open (0, 0) (0, 1) = Some (Inr (c, t2))"
      "marks (trace t1) = marks (trace t2)" "marked PURPLE (trace t1) = marked PURPLE (trace t2)"
    unfolding example_open_def by auto
  have "c" using example_open_run r(2) by (simp add: returned_def)
  then show ?thesis
    using s1 s2 r by (simp add: returned_def final_trace_def)
qed

end
